theory Spec2Isabelle
  imports Main "HOL-Library.Word"
begin

section \<open>Bytecode emission of hhbbc (emit.cpp): data model\<close>

text \<open>
  The development follows \<^verbatim>\<open>hphp/hhbbc/emit.cpp\<close>. Offsets are the 32-bit signed
  \<^verbatim>\<open>Offset\<close> of the runtime, read as \<open>int\<close>; block ids and local ids are unsigned and
  read as \<open>nat\<close>. Counters stay far below the 32-bit range in every statement made here,
  so no wrap-around is written out for them; the 32-bit branch immediates are encoded
  and decoded through \<open>32 word\<close>.

  \<^verbatim>\<open>kInvalidOffset\<close> and \<^verbatim>\<open>NoBlockId\<close> are declared in headers of the runtime
  (the largest \<^verbatim>\<open>Offset\<close> and the largest \<^verbatim>\<open>BlockId\<close>).
\<close>

type_synonym Offset = int
type_synonym BlockId = nat
type_synonym LocalId = nat

definition kInvalidOffset :: Offset where
  "kInvalidOffset = 2147483647"

definition NoBlockId :: BlockId where
  "NoBlockId = 4294967295"

definition INT_MAX :: nat where
  "INT_MAX = 2147483647"

text \<open>
  An \<^verbatim>\<open>assert\<close>/\<^verbatim>\<open>always_assert\<close> that fails aborts the process; reading a vector
  outside its bounds, or \<^verbatim>\<open>back()\<close>/\<^verbatim>\<open>front()\<close> of an empty vector, has no defined
  result. Both are results of the model, never values.
\<close>

datatype error = AssertFail | OutOfRange | IllFormed

definition and_then :: "error + 'a \<Rightarrow> ('a \<Rightarrow> error + 'b) \<Rightarrow> error + 'b" where
  "and_then m f = (case m of Inl e \<Rightarrow> Inl e | Inr x \<Rightarrow> f x)"

subsection \<open>Locals\<close>

record Local =
  id_l :: LocalId
  killed :: bool
  name_l :: "string option"

subsection \<open>Instructions\<close>

text \<open>
  The opcode table \<^verbatim>\<open>OPCODES\<close> and the predicates \<^verbatim>\<open>isRet\<close>, \<^verbatim>\<open>isFPush\<close> and
  \<^verbatim>\<open>isFCallStar\<close> live in the runtime's \<^verbatim>\<open>hhbc.h\<close>. The opcodes that
  \<^verbatim>\<open>emit.cpp\<close> names are constructors of their own; every other opcode is given by
  its number inside the family the \<^verbatim>\<open>O\<close> macro tests for (return family, fpush family,
  the remaining fcall opcodes, anything else). An instruction carries the row of the
  table for its opcode: the immediates in schema order with their payload, the
  \<^verbatim>\<open>inputs\<close> and \<^verbatim>\<open>outputs\<close> descriptors and the \<^verbatim>\<open>TF\<close> flag.
\<close>

datatype Op =
  Nop | EntryNop | Jmp | JmpNS | DefCls | DefClsNop | FCall | FCallD
  | RetOp nat | FPushOp nat | FCallStarOp nat | OtherOp nat

fun isRet :: "Op \<Rightarrow> bool" where
  "isRet (RetOp _) = True"
| "isRet _ = False"

fun isFPush :: "Op \<Rightarrow> bool" where
  "isFPush (FPushOp _) = True"
| "isFPush _ = False"

fun isFCallStar :: "Op \<Rightarrow> bool" where
  "isFCallStar FCall = True"
| "isFCallStar FCallD = True"
| "isFCallStar (FCallStarOp _) = True"
| "isFCallStar _ = False"

datatype MKey =
  MEC nat | MPC nat | MEL LocalId | MPL LocalId
  | MET string | MPT string | MQT string | MEI int | MW

record LocalRange =
  first :: LocalId
  restCount :: nat

datatype Imm =
  BLA "BlockId list"
  | SLA "(string \<times> BlockId) list"
  | ILA "(int \<times> int) list"
  | IVA nat
  | I64A int
  | LA LocalId
  | IA nat
  | CAR nat
  | CAW nat
  | DA "64 word"
  | SA string
  | RATA "8 word list"
  | AA nat
  | OA "8 word"
  | BA BlockId
  | VSA "string list"
  | KA MKey
  | LAR LocalRange

datatype Inputs =
  POP_NOV | POP_ONE | POP_TWO | POP_THREE
  | POP_MFINAL | POP_F_MFINAL | POP_C_MFINAL | POP_V_MFINAL
  | POP_CMANY | POP_SMANY | POP_FMANY | POP_CVUMANY

datatype Outputs = PUSH_NOV | PUSH_ONE | PUSH_TWO | PUSH_THREE | PUSH_INS_1

record Bytecode =
  op :: Op
  imms :: "Imm list"
  inputs :: Inputs
  outputs :: Outputs
  TF :: bool
  srcLoc :: int

subsection \<open>Exception nodes and blocks\<close>

text \<open>
  An exception node points to its parent; the tree is acyclic and rooted in null, so a
  node is a value that holds its chain of ancestors. Two pointers to exception nodes
  are equal when the nodes have the same \<^verbatim>\<open>id\<close>.
\<close>

datatype ExnInfo =
  CatchRegion (catchEntry: BlockId) (iterId_c: int) (itRef_c: bool)
  | FaultRegion (faultEntry: BlockId) (iterId_f: int) (itRef_f: bool)

datatype ExnNode =
  ExnNode (id_n: nat) (depth: nat) (parent: "ExnNode option") (info: ExnInfo)

datatype Section = Main | Fault

record Block =
  id_b :: BlockId
  hhbcs :: "Bytecode list"
  section_b :: Section
  fallthrough :: BlockId
  fallthroughNS :: bool
  exnNode :: "ExnNode option"

section \<open>Block order\<close>

text \<open>
  \<^verbatim>\<open>order_blocks\<close>. The two traversals \<^verbatim>\<open>rpoSortFromMain\<close> and \<^verbatim>\<open>rpoSortAddDVs\<close>
  belong to \<^verbatim>\<open>cfg.h\<close>; their results are the arguments \<open>rpoMain\<close> and \<open>rpoDVs\<close>.
  Blocks are compared as pointers in the source, here by their ids. \<^verbatim>\<open>std::find\<close>
  followed by \<^verbatim>\<open>erase\<close> up to the end keeps what precedes the first occurrence of
  the main entry. \<^verbatim>\<open>std::stable_sort\<close> on the section is the stable insertion sort
  \<open>sort_key\<close>. \<^verbatim>\<open>is_single_nop\<close> (one instruction, a plain \<^verbatim>\<open>Nop\<close>) is a helper of
  \<^verbatim>\<open>cfg.h\<close>; \<^verbatim>\<open>bc::EntryNop{}\<close> has no immediates and no stack effect. The source
  rewrites the instructions of the block object that the first pointer refers to, so
  every occurrence of that block in the list shows the \<^verbatim>\<open>EntryNop\<close>.
\<close>

fun section_rank :: "Section \<Rightarrow> nat" where
  "section_rank Main = 0"
| "section_rank Fault = 1"

definition is_single_nop :: "Block \<Rightarrow> bool" where
  "is_single_nop b = (case hhbcs b of [i] \<Rightarrow> op i = Nop | _ \<Rightarrow> False)"

definition bc_EntryNop :: Bytecode where
  "bc_EntryNop = \<lparr>op = EntryNop, imms = [], inputs = POP_NOV, outputs = PUSH_NOV,
                   TF = False, srcLoc = - 1\<rparr>"

definition dvBlocks :: "Block list \<Rightarrow> Block list \<Rightarrow> Block list" where
  "dvBlocks rpoMain rpoDVs =
     takeWhile (\<lambda>b. id_b b \<noteq> id_b (hd rpoMain)) rpoDVs"

definition order_blocks :: "Block list \<Rightarrow> Block list \<Rightarrow> error + Block list" where
  "order_blocks rpoMain rpoDVs =
     (if rpoMain = [] then Inl OutOfRange
      else
        (case sort_key (\<lambda>b. section_rank (section_b b)) (rpoMain @ dvBlocks rpoMain rpoDVs) of
           [] \<Rightarrow> Inl OutOfRange
         | front # rest \<Rightarrow>
             Inr (if is_single_nop front then
                    map (\<lambda>b. if id_b b = id_b front then b\<lparr>hhbcs := [bc_EntryNop]\<rparr> else b)
                        (front # rest)
                  else front # rest)))"

section \<open>The sink and the state of \<^verbatim>\<open>emit_bytecode\<close>\<close>

text \<open>
  The \<^verbatim>\<open>UnitEmitter\<close> is a class of the runtime. Modelled from the spec: the
  stream is a sequence of bytes, \<^verbatim>\<open>bcPos\<close> is its length, \<^verbatim>\<open>emitOp\<close> appends the one
  byte of the opcode tag, \<^verbatim>\<open>emitInt32\<close>, \<^verbatim>\<open>emitInt64\<close> and \<^verbatim>\<open>emitDouble\<close> append
  little-endian bytes, \<^verbatim>\<open>emitIVA\<close> appends one byte when the value fits in 7 bits and
  otherwise 4 bytes with the high bit of the first byte set, \<^verbatim>\<open>emitInt32(v, pos)\<close>
  overwrites the 4 bytes at \<open>pos\<close>, and \<^verbatim>\<open>mergeLitstr\<close>/\<^verbatim>\<open>mergeArray\<close> intern a literal
  into a table and return its index. The numbering of the opcodes belongs to the
  absent table, so a tag byte is kept as the opcode it stands for.
\<close>

datatype cell = OpByte Op | Byte "8 word"

record SrcLoc =
  start_line :: nat
  start_col :: nat
  past_line :: nat
  past_col :: nat
  isValid :: bool

definition SrcLoc_default :: SrcLoc where
  "SrcLoc_default = \<lparr>start_line = 0, start_col = 0, past_line = 0, past_col = 0,
                      isValid = False\<rparr>"

record JmpFixup =
  instrOff :: Offset
  jmpImmedOff :: Offset

record BlockInfo =
  offset :: Offset
  past :: Offset
  regionsToPop :: int
  forwardJumps :: "JmpFixup list"
  expectedStackDepth :: "int option"
  expectedFPIDepth :: "nat option"

definition BlockInfo_init :: BlockInfo where
  "BlockInfo_init = \<lparr>offset = kInvalidOffset, past = kInvalidOffset, regionsToPop = 0,
                      forwardJumps = [], expectedStackDepth = None,
                      expectedFPIDepth = None\<rparr>"

record FPI =
  fpushOff :: Offset
  fpiEndOff :: Offset
  fpDelta :: int

text \<open>
  One record holds everything \<^verbatim>\<open>emit_bytecode\<close> mutates: the sink (\<open>bc\<close>, \<open>litstrs\<close>,
  \<open>arrays\<close>, \<open>sourceLocTab\<close>), the \<^verbatim>\<open>defClsMap\<close> of \<^verbatim>\<open>EmitUnitState\<close>, the
  \<^verbatim>\<open>EmitBcInfo\<close> under construction (\<open>blockInfo\<close>, \<open>maxStackDepth\<close>, \<open>maxFpiDepth\<close>,
  \<open>containsCalls\<close>, \<open>fpiRegions\<close>) and the local variables \<open>currentStackDepth\<close>,
  \<open>fpiStack\<close> (its top is the last element) and \<open>lastOff\<close>.
\<close>

record EmitState =
  bc :: "cell list"
  litstrs :: "string list"
  arrays :: "nat list"
  sourceLocTab :: "(SrcLoc \<times> Offset) list"
  defClsMap :: "Offset list"
  blockInfo :: "BlockInfo list"
  maxStackDepth :: int
  maxFpiDepth :: nat
  containsCalls :: bool
  fpiRegions :: "FPI list"
  currentStackDepth :: int
  fpiStack :: "FPI list"
  lastOff :: Offset

text \<open>
  Of a parameter only the entry block of its default-value initializer is read back;
  its other fields are copied into the function emitter as they are.
\<close>

record Param =
  dvEntryPoint :: BlockId

record Func =
  locals :: "Local list"
  params :: "Param list"
  blocks :: "Block list"
  srcLocs :: "SrcLoc list"

text \<open>
  \<^verbatim>\<open>emit_init_func\<close>: the loop that gives killed locals the id \<^verbatim>\<open>INT_MAX\<close> and the
  live ones the next free id. (The call \<^verbatim>\<open>fe.init\<close> only fills the function emitter.)
\<close>

fun assign_local_ids :: "nat \<Rightarrow> Local list \<Rightarrow> Local list" where
  "assign_local_ids n [] = []"
| "assign_local_ids n (loc # locs) =
     (if killed loc then loc\<lparr>id_l := INT_MAX\<rparr> # assign_local_ids n locs
      else loc\<lparr>id_l := n\<rparr> # assign_local_ids (Suc n) locs)"

definition emit_init_func :: "Func \<Rightarrow> Func" where
  "emit_init_func func = func\<lparr>locals := assign_local_ids 0 (locals func)\<rparr>"

text \<open>\<^verbatim>\<open>map_local\<close>, a lambda of \<^verbatim>\<open>emit_bytecode\<close> over \<^verbatim>\<open>func.locals\<close>.\<close>

definition map_local :: "Func \<Rightarrow> LocalId \<Rightarrow> error + LocalId" where
  "map_local func i =
     (if i < length (locals func) then
        (let loc = locals func ! i in
         if killed loc then Inl AssertFail
         else if \<not> id_l loc \<le> i then Inl AssertFail
         else Inr (id_l loc))
      else Inl OutOfRange)"

type_synonym step = "EmitState \<Rightarrow> error + EmitState"

fun seq :: "step list \<Rightarrow> step" where
  "seq [] st = Inr st"
| "seq (f # fs) st = and_then (f st) (seq fs)"

definition when_do :: "bool \<Rightarrow> step \<Rightarrow> step" where
  "when_do c f st = (if c then f st else Inr st)"

definition pure_step :: "(EmitState \<Rightarrow> EmitState) \<Rightarrow> step" where
  "pure_step f st = Inr (f st)"

subsection \<open>Sink operations\<close>

definition bcPos :: "EmitState \<Rightarrow> Offset" where
  "bcPos st = int (length (bc st))"

definition emitCells :: "cell list \<Rightarrow> EmitState \<Rightarrow> EmitState" where
  "emitCells cs st = st\<lparr>bc := bc st @ cs\<rparr>"

definition emitOp :: "Op \<Rightarrow> EmitState \<Rightarrow> EmitState" where
  "emitOp opc = emitCells [OpByte opc]"

definition emitByte :: "8 word \<Rightarrow> EmitState \<Rightarrow> EmitState" where
  "emitByte b = emitCells [Byte b]"

definition int32_bytes :: "int \<Rightarrow> 8 word list" where
  "int32_bytes v = map (\<lambda>k. word_of_int (v div 256 ^ k)) [0, 1, 2, 3]"

definition int64_bytes :: "int \<Rightarrow> 8 word list" where
  "int64_bytes v = map (\<lambda>k. word_of_int (v div 256 ^ k)) [0, 1, 2, 3, 4, 5, 6, 7]"

definition emitInt32 :: "int \<Rightarrow> EmitState \<Rightarrow> EmitState" where
  "emitInt32 v = emitCells (map Byte (int32_bytes v))"

definition emitInt64 :: "int \<Rightarrow> EmitState \<Rightarrow> EmitState" where
  "emitInt64 v = emitCells (map Byte (int64_bytes v))"

definition emitDouble :: "64 word \<Rightarrow> EmitState \<Rightarrow> EmitState" where
  "emitDouble d = emitCells (map Byte (int64_bytes (uint d)))"

definition emitIVA :: "nat \<Rightarrow> EmitState \<Rightarrow> EmitState" where
  "emitIVA n =
     (if n < 128 then emitByte (of_nat n)
      else emitInt32 (int ((n div 128) * 256 + 128 + n mod 128)))"

definition emitInt32_at :: "int \<Rightarrow> Offset \<Rightarrow> step" where
  "emitInt32_at v pos st =
     (if 0 \<le> pos \<and> pos + 4 \<le> bcPos st then
        Inr (st\<lparr>bc := take (nat pos) (bc st) @ map Byte (int32_bytes v)
                          @ drop (nat pos + 4) (bc st)\<rparr>)
      else Inl OutOfRange)"

text \<open>Reading a 32-bit signed immediate back from the stream (used in statements only).\<close>

fun cell_val :: "cell \<Rightarrow> int" where
  "cell_val (Byte b) = uint b"
| "cell_val (OpByte _) = 0"

definition int32_of_cells :: "cell list \<Rightarrow> int" where
  "int32_of_cells cs =
     sint (word_of_int (cell_val (cs ! 0) + 256 * cell_val (cs ! 1)
                        + 65536 * cell_val (cs ! 2) + 16777216 * cell_val (cs ! 3)) :: 32 word)"

definition read_int32 :: "cell list \<Rightarrow> Offset \<Rightarrow> int" where
  "read_int32 cs pos = int32_of_cells (take 4 (drop (nat pos) cs))"

definition intern :: "'a \<Rightarrow> 'a list \<Rightarrow> int \<times> 'a list" where
  "intern x tab =
     (int (length (takeWhile (\<lambda>y. y \<noteq> x) tab)), if x \<in> set tab then tab else tab @ [x])"

definition emit_litstr :: "string \<Rightarrow> EmitState \<Rightarrow> EmitState" where
  "emit_litstr s st =
     (case intern s (litstrs st) of (i, tab) \<Rightarrow> emitInt32 i (st\<lparr>litstrs := tab\<rparr>))"

definition emit_array :: "nat \<Rightarrow> EmitState \<Rightarrow> EmitState" where
  "emit_array a st =
     (case intern a (arrays st) of (i, tab) \<Rightarrow> emitInt32 i (st\<lparr>arrays := tab\<rparr>))"

definition encodeRAT :: "8 word list \<Rightarrow> EmitState \<Rightarrow> EmitState" where
  "encodeRAT blob = emitCells (map Byte blob)"

subsection \<open>The lambdas of \<^verbatim>\<open>emit_bytecode\<close>\<close>

definition end_fpi :: "Offset \<Rightarrow> step" where
  "end_fpi off st =
     (if fpiStack st = [] then Inl OutOfRange
      else Inr (st\<lparr>fpiRegions := fpiRegions st @ [(last (fpiStack st))\<lparr>fpiEndOff := off\<rparr>],
                  fpiStack := butlast (fpiStack st)\<rparr>))"

definition update_info :: "BlockId \<Rightarrow> (BlockInfo \<Rightarrow> BlockInfo) \<Rightarrow> EmitState \<Rightarrow> EmitState" where
  "update_info i f st = st\<lparr>blockInfo := (blockInfo st)[i := f (blockInfo st ! i)]\<rparr>"

definition set_expected_depth :: "BlockId \<Rightarrow> step" where
  "set_expected_depth i st =
     (if \<not> i < length (blockInfo st) then Inl OutOfRange
      else
        (let info = blockInfo st ! i in
         if expectedStackDepth info \<noteq> None
            \<and> expectedStackDepth info \<noteq> Some (currentStackDepth st)
         then Inl AssertFail
         else if expectedFPIDepth info \<noteq> None
            \<and> expectedFPIDepth info \<noteq> Some (length (fpiStack st))
         then Inl AssertFail
         else Inr (update_info i
                     (\<lambda>info. info\<lparr>expectedStackDepth := Some (currentStackDepth st),
                                   expectedFPIDepth := Some (length (fpiStack st))\<rparr>) st)))"

definition add_fixup :: "BlockId \<Rightarrow> JmpFixup \<Rightarrow> EmitState \<Rightarrow> EmitState" where
  "add_fixup i fixup =
     update_info i (\<lambda>info. info\<lparr>forwardJumps := forwardJumps info @ [fixup]\<rparr>)"

definition emit_branch :: "Offset \<Rightarrow> BlockId \<Rightarrow> step" where
  "emit_branch startOffset i st =
     and_then (set_expected_depth i st) (\<lambda>st.
       if offset (blockInfo st ! i) \<noteq> kInvalidOffset then
         Inr (emitInt32 (offset (blockInfo st ! i) - startOffset) st)
       else
         Inr (emitInt32 0
               (add_fixup i \<lparr>instrOff = startOffset, jmpImmedOff = bcPos st\<rparr> st)))"

definition emit_vsa :: "string list \<Rightarrow> step" where
  "emit_vsa keys =
     seq (pure_step (emitInt32 (int (length keys)))
          # map (\<lambda>k. pure_step (emit_litstr k)) keys)"

definition emit_switch :: "Offset \<Rightarrow> BlockId list \<Rightarrow> step" where
  "emit_switch startOffset targets =
     seq (pure_step (emitInt32 (int (length targets)))
          # map (emit_branch startOffset) targets)"

definition emit_sswitch :: "Offset \<Rightarrow> (string \<times> BlockId) list \<Rightarrow> step" where
  "emit_sswitch startOffset targets st =
     (if targets = [] then Inl OutOfRange
      else
        seq (pure_step (emitInt32 (int (length targets)))
             # concat (map (\<lambda>t. [pure_step (emit_litstr (fst t)),
                                   emit_branch startOffset (snd t)]) (butlast targets))
             @ [pure_step (emitInt32 (- 1)), emit_branch startOffset (snd (last targets))])
          st)"

definition emit_itertab :: "(int \<times> int) list \<Rightarrow> step" where
  "emit_itertab iterTab =
     seq (pure_step (emitInt32 (int (length iterTab)))
          # concat (map (\<lambda>kv. [pure_step (emitInt32 (fst kv)),
                                 pure_step (emitInt32 (snd kv))]) iterTab))"

definition pop :: "int \<Rightarrow> step" where
  "pop n st =
     (if currentStackDepth st - n \<ge> 0
      then Inr (st\<lparr>currentStackDepth := currentStackDepth st - n\<rparr>)
      else Inl AssertFail)"

definition push :: "int \<Rightarrow> EmitState \<Rightarrow> EmitState" where
  "push n st =
     (let d = currentStackDepth st + n in
      st\<lparr>currentStackDepth := d,
         maxStackDepth := (if d > maxStackDepth st then d else maxStackDepth st)\<rparr>)"

definition fpush :: "Offset \<Rightarrow> EmitState \<Rightarrow> EmitState" where
  "fpush startOffset st =
     st\<lparr>fpiStack := fpiStack st @
           [\<lparr>fpushOff = startOffset, fpiEndOff = kInvalidOffset,
             fpDelta = currentStackDepth st\<rparr>],
        maxFpiDepth := max (maxFpiDepth st) (Suc (length (fpiStack st)))\<rparr>"

definition fcall :: "Offset \<Rightarrow> step" where
  "fcall startOffset = end_fpi startOffset"

definition ret_assert :: step where
  "ret_assert st = (if currentStackDepth st = 1 then Inr st else Inl AssertFail)"

text \<open>
  \<^verbatim>\<open>inst.DefCls.arg1\<close>, which \<^verbatim>\<open>defclsnop\<close> reads too: the first immediate, an
  \<^verbatim>\<open>IVA\<close>. \<open>arg n\<close> is \<^verbatim>\<open>data.arg##n\<close>, \<open>keys_of\<close> is \<^verbatim>\<open>data.keys\<close>.
\<close>

definition arg :: "nat \<Rightarrow> Bytecode \<Rightarrow> error + nat" where
  "arg n inst =
     (if 0 < n \<and> n \<le> length (imms inst) then
        (case imms inst ! (n - 1) of IVA v \<Rightarrow> Inr v | _ \<Rightarrow> Inl IllFormed)
      else Inl IllFormed)"

fun keys_of :: "Imm list \<Rightarrow> error + string list" where
  "keys_of [] = Inl IllFormed"
| "keys_of (VSA ks # _) = Inr ks"
| "keys_of (_ # is) = keys_of is"

definition defcls :: "Bytecode \<Rightarrow> Offset \<Rightarrow> step" where
  "defcls inst startOffset st =
     and_then (arg 1 inst) (\<lambda>i.
       if \<not> i < length (defClsMap st) then Inl OutOfRange
       else if defClsMap st ! i \<noteq> kInvalidOffset then Inl AssertFail
       else Inr (st\<lparr>defClsMap := (defClsMap st)[i := startOffset]\<rparr>))"

definition defclsnop :: "Bytecode \<Rightarrow> Offset \<Rightarrow> step" where
  "defclsnop inst startOffset st =
     and_then (arg 1 inst) (\<lambda>i.
       if \<not> i < length (defClsMap st) then Inl OutOfRange
       else if defClsMap st ! i \<noteq> kInvalidOffset then Inl AssertFail
       else Inr (st\<lparr>defClsMap := (defClsMap st)[i := startOffset]\<rparr>))"

text \<open>
  \<^verbatim>\<open>make_member_key\<close> maps the local of a member key; \<^verbatim>\<open>encode_member_key\<close> and
  \<^verbatim>\<open>encodeLocalRange\<close> are the runtime's. Modelled from the spec: a tag byte, then the
  payload of the variant; a local range is the \<^verbatim>\<open>IVA\<close> of its first local and the
  \<^verbatim>\<open>IVA\<close> of its count.
\<close>

definition make_member_key :: "Func \<Rightarrow> MKey \<Rightarrow> error + MKey" where
  "make_member_key func mkey =
     (case mkey of
        MEL l \<Rightarrow> and_then (map_local func l) (\<lambda>l'. Inr (MEL l'))
      | MPL l \<Rightarrow> and_then (map_local func l) (\<lambda>l'. Inr (MPL l'))
      | _ \<Rightarrow> Inr mkey)"

fun encode_member_key :: "MKey \<Rightarrow> EmitState \<Rightarrow> EmitState" where
  "encode_member_key (MEC i) st = emitIVA i (emitByte 0 st)"
| "encode_member_key (MPC i) st = emitIVA i (emitByte 1 st)"
| "encode_member_key (MEL l) st = emitIVA l (emitByte 2 st)"
| "encode_member_key (MPL l) st = emitIVA l (emitByte 3 st)"
| "encode_member_key (MET s) st = emit_litstr s (emitByte 4 st)"
| "encode_member_key (MPT s) st = emit_litstr s (emitByte 5 st)"
| "encode_member_key (MQT s) st = emit_litstr s (emitByte 6 st)"
| "encode_member_key (MEI v) st = emitInt64 v (emitByte 7 st)"
| "encode_member_key MW st = emitByte 8 st"

text \<open>
  \<^verbatim>\<open>emit_lar\<close>. The two fields of a \<^verbatim>\<open>LocalRange\<close> and the local ids are \<^verbatim>\<open>uint32_t\<close>:
  the sum \<^verbatim>\<open>range.first + range.restCount\<close> and the difference \<^verbatim>\<open>last - first\<close> wrap
  around at \<open>2 ^ 32\<close>.
\<close>

definition emit_lar :: "Func \<Rightarrow> LocalRange \<Rightarrow> step" where
  "emit_lar func locrange st =
     (if \<not> (first locrange + restCount locrange) mod 2 ^ 32 < length (locals func)
      then Inl AssertFail
      else
        and_then (map_local func (first locrange)) (\<lambda>f.
        and_then (map_local func ((first locrange + restCount locrange) mod 2 ^ 32)) (\<lambda>l.
          if (int l - int f) mod 2 ^ 32 \<noteq> int (restCount locrange) then Inl AssertFail
          else Inr (emitIVA (restCount locrange) (emitIVA f st)))))"

definition srcLoc_of :: "Func \<Rightarrow> int \<Rightarrow> error + SrcLoc" where
  "srcLoc_of func ix =
     (if ix \<ge> 0 then
        (if nat ix < length (srcLocs func) then Inr (srcLocs func ! nat ix)
         else Inl OutOfRange)
      else Inr SrcLoc_default)"

definition emit_srcloc :: "Func \<Rightarrow> Bytecode \<Rightarrow> Offset \<Rightarrow> step" where
  "emit_srcloc func inst startOffset st =
     and_then (srcLoc_of func (srcLoc inst)) (\<lambda>sl.
       if \<not> isValid sl then Inr st
       else Inr (st\<lparr>sourceLocTab := sourceLocTab st @ [(sl, startOffset)]\<rparr>))"

subsection \<open>The macros \<^verbatim>\<open>IMM_\<close>, \<^verbatim>\<open>POP_\<close>, \<^verbatim>\<open>PUSH_\<close> and \<^verbatim>\<open>O\<close>\<close>

fun emit_imm :: "Func \<Rightarrow> Offset \<Rightarrow> Imm \<Rightarrow> step" where
  "emit_imm func startOffset (BLA targets) = emit_switch startOffset targets"
| "emit_imm func startOffset (SLA targets) = emit_sswitch startOffset targets"
| "emit_imm func startOffset (ILA iterTab) = emit_itertab iterTab"
| "emit_imm func startOffset (IVA n) = pure_step (emitIVA n)"
| "emit_imm func startOffset (I64A v) = pure_step (emitInt64 v)"
| "emit_imm func startOffset (LA l) =
     (\<lambda>st. and_then (map_local func l) (\<lambda>l'. Inr (emitIVA l' st)))"
| "emit_imm func startOffset (IA n) = pure_step (emitIVA n)"
| "emit_imm func startOffset (CAR n) = pure_step (emitIVA n)"
| "emit_imm func startOffset (CAW n) = pure_step (emitIVA n)"
| "emit_imm func startOffset (DA d) = pure_step (emitDouble d)"
| "emit_imm func startOffset (SA s) = pure_step (emit_litstr s)"
| "emit_imm func startOffset (RATA blob) = pure_step (encodeRAT blob)"
| "emit_imm func startOffset (AA a) = pure_step (emit_array a)"
| "emit_imm func startOffset (OA b) = pure_step (emitByte b)"
| "emit_imm func startOffset (BA target) = emit_branch startOffset target"
| "emit_imm func startOffset (VSA keys) = emit_vsa keys"
| "emit_imm func startOffset (KA mkey) =
     (\<lambda>st. and_then (make_member_key func mkey)
                     (\<lambda>k. Inr (encode_member_key k st)))"
| "emit_imm func startOffset (LAR locrange) = emit_lar func locrange"

definition pop_arg :: "nat \<Rightarrow> Bytecode \<Rightarrow> step" where
  "pop_arg n inst st = and_then (arg n inst) (\<lambda>v. pop (int v) st)"

fun do_pop :: "Inputs \<Rightarrow> Bytecode \<Rightarrow> step" where
  "do_pop POP_NOV inst = Inr"
| "do_pop POP_ONE inst = pop 1"
| "do_pop POP_TWO inst = pop 2"
| "do_pop POP_THREE inst = pop 3"
| "do_pop POP_MFINAL inst = pop_arg 1 inst"
| "do_pop POP_F_MFINAL inst = pop_arg 2 inst"
| "do_pop POP_C_MFINAL inst = seq [pop 1, pop_arg 1 inst]"
| "do_pop POP_V_MFINAL inst = seq [pop 1, pop_arg 1 inst]"
| "do_pop POP_CMANY inst = pop_arg 1 inst"
| "do_pop POP_SMANY inst =
     (\<lambda>st. and_then (keys_of (imms inst)) (\<lambda>ks. pop (int (length ks)) st))"
| "do_pop POP_FMANY inst = pop_arg 1 inst"
| "do_pop POP_CVUMANY inst = pop_arg 1 inst"

fun do_push :: "Outputs \<Rightarrow> step" where
  "do_push PUSH_NOV = Inr"
| "do_push PUSH_ONE = pure_step (push 1)"
| "do_push PUSH_TWO = pure_step (push 2)"
| "do_push PUSH_THREE = pure_step (push 3)"
| "do_push PUSH_INS_1 = pure_step (push 1)"

definition reset_depth :: "EmitState \<Rightarrow> EmitState" where
  "reset_depth st = st\<lparr>currentStackDepth := 0\<rparr>"

definition set_containsCalls :: "EmitState \<Rightarrow> EmitState" where
  "set_containsCalls st = st\<lparr>containsCalls := True\<rparr>"

definition set_lastOff :: "Offset \<Rightarrow> EmitState \<Rightarrow> EmitState" where
  "set_lastOff off st = st\<lparr>lastOff := off\<rparr>"

text \<open>The body of the lambda \<^verbatim>\<open>emit_##opcode\<close> that the macro \<^verbatim>\<open>O\<close> generates.\<close>

definition emit_opcode :: "Func \<Rightarrow> Offset \<Rightarrow> Bytecode \<Rightarrow> step" where
  "emit_opcode func startOffset inst =
     seq ([when_do (op inst = DefCls) (defcls inst startOffset),
           when_do (op inst = DefClsNop) (defclsnop inst startOffset),
           when_do (isRet (op inst)) ret_assert,
           pure_step (emitOp (op inst)),
           do_pop (inputs inst) inst,
           do_push (outputs inst)]
          @ map (emit_imm func startOffset) (imms inst)
          @ [when_do (isFPush (op inst)) (pure_step (fpush startOffset)),
             when_do (isFCallStar (op inst)) (fcall startOffset),
             when_do (TF inst) (pure_step reset_depth),
             when_do (op inst = FCall \<or> op inst = FCallD) (pure_step set_containsCalls),
             emit_srcloc func inst startOffset])"

text \<open>
  \<^verbatim>\<open>emit_inst\<close>: the start offset is taken, \<open>lastOff\<close> is set, and the dispatching
  \<^verbatim>\<open>switch\<close> calls the opcode's lambda unless the opcode is \<^verbatim>\<open>Nop\<close>.
\<close>

definition emit_inst :: "Func \<Rightarrow> Bytecode \<Rightarrow> step" where
  "emit_inst func inst st =
     (let startOffset = bcPos st;
          st1 = set_lastOff startOffset st
      in if op inst \<noteq> Nop then emit_opcode func startOffset inst st1 else Inr st1)"

subsection \<open>Exception nodes: \<^verbatim>\<open>handleEquivalent\<close> and \<^verbatim>\<open>commonParent\<close>\<close>

text \<open>
  Both functions follow parent pointers without testing them where the depths recorded
  in the nodes promise a parent; following a null pointer is \<open>OutOfRange\<close>.
\<close>

fun entry :: "ExnNode \<Rightarrow> BlockId" where
  "entry (ExnNode _ _ _ (CatchRegion c _ _)) = c"
| "entry (ExnNode _ _ _ (FaultRegion f _ _)) = f"

fun handleEquivalent_loop :: "ExnNode \<Rightarrow> ExnNode \<Rightarrow> error + bool" where
  "handleEquivalent_loop (ExnNode i1 d1 p1 inf1) (ExnNode i2 d2 p2 inf2) =
     (if entry (ExnNode i1 d1 p1 inf1) = entry (ExnNode i2 d2 p2 inf2) then
        (case (p1, p2) of
           (None, None) \<Rightarrow> Inr True
         | (Some eh1, Some eh2) \<Rightarrow> handleEquivalent_loop eh1 eh2
         | _ \<Rightarrow> Inl OutOfRange)
      else Inr False)"

fun handleEquivalent :: "ExnNode option \<Rightarrow> ExnNode option \<Rightarrow> error + bool" where
  "handleEquivalent None None = Inr True"
| "handleEquivalent (Some eh1) (Some eh2) =
     (if depth eh1 \<noteq> depth eh2 then Inr False else handleEquivalent_loop eh1 eh2)"
| "handleEquivalent _ _ = Inr False"

fun ascend :: "nat \<Rightarrow> ExnNode \<Rightarrow> error + ExnNode" where
  "ascend d (ExnNode i1 d1 p1 inf1) =
     (if d1 > d then
        (case p1 of None \<Rightarrow> Inl OutOfRange | Some eh \<Rightarrow> ascend d eh)
      else Inr (ExnNode i1 d1 p1 inf1))"

fun commonParent_loop :: "ExnNode option \<Rightarrow> ExnNode option \<Rightarrow> error + ExnNode option" where
  "commonParent_loop (Some (ExnNode i1 d1 p1 inf1)) (Some (ExnNode i2 d2 p2 inf2)) =
     (case handleEquivalent (Some (ExnNode i1 d1 p1 inf1)) (Some (ExnNode i2 d2 p2 inf2)) of
        Inl e \<Rightarrow> Inl e
      | Inr True \<Rightarrow> Inr (Some (ExnNode i1 d1 p1 inf1))
      | Inr False \<Rightarrow> commonParent_loop p1 p2)"
| "commonParent_loop None None = Inr None"
| "commonParent_loop _ _ = Inl OutOfRange"

definition commonParent :: "ExnNode option \<Rightarrow> ExnNode option \<Rightarrow> error + ExnNode option" where
  "commonParent eh1 eh2 =
     (case (eh1, eh2) of
        (Some a, Some b) \<Rightarrow>
          and_then (ascend (depth b) a) (\<lambda>a'.
          and_then (ascend (depth a') b) (\<lambda>b'.
            commonParent_loop (Some a') (Some b')))
      | _ \<Rightarrow> Inr None)"

subsection \<open>The loop of \<^verbatim>\<open>emit_bytecode\<close> over the blocks\<close>

text \<open>
  \<^verbatim>\<open>bc::Jmp\<close> and \<^verbatim>\<open>bc::JmpNS\<close>, built for a fall-through that is not the next block:
  one branch immediate, no stack effect, terminal.
\<close>

definition bc_Jmp :: "BlockId \<Rightarrow> Bytecode" where
  "bc_Jmp target = \<lparr>op = Jmp, imms = [BA target], inputs = POP_NOV, outputs = PUSH_NOV,
                     TF = True, srcLoc = - 1\<rparr>"

definition bc_JmpNS :: "BlockId \<Rightarrow> Bytecode" where
  "bc_JmpNS target = \<lparr>op = JmpNS, imms = [BA target], inputs = POP_NOV, outputs = PUSH_NOV,
                       TF = True, srcLoc = - 1\<rparr>"

function end_fpi_while :: "nat \<Rightarrow> step" where
  "end_fpi_while e st =
     (if e < length (fpiStack st) then
        (case end_fpi (lastOff st) st of
           Inl err \<Rightarrow> Inl err
         | Inr st' \<Rightarrow> end_fpi_while e st')
      else Inr st)"
  by pat_completeness auto
termination
  by (relation "measure (\<lambda>(e, st). length (fpiStack st))")
     (auto simp: end_fpi_def split: if_splits)

declare end_fpi_while.simps [simp del]

definition patch_jumps :: "Offset \<Rightarrow> JmpFixup list \<Rightarrow> step" where
  "patch_jumps off fixups =
     seq (map (\<lambda>fixup. emitInt32_at (off - instrOff fixup) (jmpImmedOff fixup)) fixups)"

definition set_offset :: "BlockId \<Rightarrow> Offset \<Rightarrow> EmitState \<Rightarrow> EmitState" where
  "set_offset i off = update_info i (\<lambda>info. info\<lparr>offset := off\<rparr>)"

definition set_past :: "BlockId \<Rightarrow> Offset \<Rightarrow> EmitState \<Rightarrow> EmitState" where
  "set_past i off = update_info i (\<lambda>info. info\<lparr>past := off\<rparr>)"

definition set_regionsToPop :: "BlockId \<Rightarrow> int \<Rightarrow> EmitState \<Rightarrow> EmitState" where
  "set_regionsToPop i r = update_info i (\<lambda>info. info\<lparr>regionsToPop := r\<rparr>)"

text \<open>
  A block never expected by a jump or a fall-through is entered with both depths 0;
  the tracked depth becomes the expected one.
\<close>

definition enter_depths :: "BlockId \<Rightarrow> step" where
  "enter_depths i st =
     (if \<not> i < length (blockInfo st) then Inl OutOfRange
      else
        (let info = blockInfo st ! i;
             esd = (case expectedStackDepth info of None \<Rightarrow> 0 | Some d \<Rightarrow> d);
             efd = (case expectedFPIDepth info of None \<Rightarrow> 0 | Some d \<Rightarrow> d)
         in Inr ((update_info i (\<lambda>info. info\<lparr>expectedStackDepth := Some esd,
                                               expectedFPIDepth := Some efd\<rparr>) st)
                 \<lparr>currentStackDepth := esd\<rparr>)))"

definition close_fpis :: "BlockId \<Rightarrow> step" where
  "close_fpis i st =
     (case expectedFPIDepth (blockInfo st ! i) of
        None \<Rightarrow> Inl OutOfRange
      | Some efd \<Rightarrow>
          if \<not> efd \<le> length (fpiStack st) then Inl AssertFail
          else end_fpi_while efd st)"

text \<open>The head of the loop body, up to the instructions of the block.\<close>

definition begin_block :: "Block \<Rightarrow> step" where
  "begin_block b st =
     (if \<not> id_b b < length (blockInfo st) then Inl OutOfRange
      else
        seq [pure_step (set_offset (id_b b) (bcPos st)),
             patch_jumps (bcPos st) (forwardJumps (blockInfo st ! id_b b)),
             enter_depths (id_b b),
             close_fpis (id_b b)] st)"

text \<open>The tail of the loop body, after the instructions; \<open>nxt\<close> is the next block of the layout.\<close>

definition pop_regions :: "Func \<Rightarrow> Block \<Rightarrow> step" where
  "pop_regions func b st =
     (if \<not> fallthrough b < length (blocks func) then Inl OutOfRange
      else
        and_then (commonParent (exnNode (blocks func ! fallthrough b)) (exnNode b))
          (\<lambda>parent.
             let r = (case exnNode b of
                        Some n \<Rightarrow> int (depth n)
                          - (case parent of Some p \<Rightarrow> int (depth p) | None \<Rightarrow> 0)
                      | None \<Rightarrow> 0)
             in if r \<ge> 0 then Inr (set_regionsToPop (id_b b) r st) else Inl AssertFail))"

definition finish_block :: "Func \<Rightarrow> Block \<Rightarrow> Block option \<Rightarrow> step" where
  "finish_block func b nxt st =
     seq (pure_step (set_past (id_b b) (bcPos st))
          # (if fallthrough b \<noteq> NoBlockId then
               set_expected_depth (fallthrough b)
               # (if (case nxt of None \<Rightarrow> True | Some n \<Rightarrow> id_b n \<noteq> fallthrough b) then
                    [emit_inst func (if fallthroughNS b then bc_JmpNS (fallthrough b)
                                     else bc_Jmp (fallthrough b)),
                     pop_regions func b]
                  else [])
             else [])) st"

definition emit_block :: "Func \<Rightarrow> Block \<Rightarrow> Block option \<Rightarrow> step" where
  "emit_block func b nxt =
     seq [begin_block b, seq (map (emit_inst func) (hhbcs b)), finish_block func b nxt]"

fun emit_blocks :: "Func \<Rightarrow> Block list \<Rightarrow> step" where
  "emit_blocks func [] st = Inr st"
| "emit_blocks func (b # bs) st =
     and_then (emit_block func b (case bs of [] \<Rightarrow> None | n # _ \<Rightarrow> Some n) st)
              (emit_blocks func bs)"

text \<open>
  The state \<^verbatim>\<open>emit_bytecode\<close> starts from: a fresh \<^verbatim>\<open>EmitBcInfo\<close> and fresh locals on
  the sink and the \<^verbatim>\<open>defClsMap\<close> it is handed.
\<close>

definition init_state :: "Func \<Rightarrow> EmitState \<Rightarrow> EmitState" where
  "init_state func st =
     st\<lparr>blockInfo := replicate (length (blocks func)) BlockInfo_init,
        maxStackDepth := 0, maxFpiDepth := 0, containsCalls := False, fpiRegions := [],
        currentStackDepth := 0, fpiStack := [], lastOff := 0\<rparr>"

definition emit_bytecode ::
  "(Func \<Rightarrow> Block list) \<Rightarrow> (Func \<Rightarrow> Block list) \<Rightarrow> Func \<Rightarrow> EmitState
     \<Rightarrow> error + (Block list \<times> EmitState)" where
  "emit_bytecode rpoSortFromMain rpoSortAddDVs func st =
     and_then (order_blocks (rpoSortFromMain func) (rpoSortAddDVs func)) (\<lambda>blockOrder.
     and_then (emit_blocks func blockOrder (init_state func st)) (\<lambda>st1.
     and_then (end_fpi_while 0 st1) (\<lambda>st2. Inr (blockOrder, st2))))"

subsection \<open>The calls of an emission, as a sequence\<close>

text \<open>
  An emission is a sequence of calls of the functions above. To speak of the states
  between two calls, a call is a value (\<open>action\<close>), \<open>act\<close> performs one call and \<open>run\<close>
  a sequence of them, stopping at the first failure. Every state that
  \<^verbatim>\<open>emit_bytecode\<close> goes through for a function is the result of \<open>run\<close> on such a
  sequence from its start state, whatever the grain at which the calls are taken.
\<close>

datatype action =
  Emit_block Block "Block option"
  | Begin_block Block
  | Finish_block Block "Block option"
  | Emit_inst Bytecode
  | Emit_opcode Offset Bytecode
  | Emit_imm Offset Imm
  | Emit_branch Offset BlockId
  | Set_expected_depth BlockId
  | Add_fixup BlockId JmpFixup
  | Do_pop Inputs Bytecode
  | Pop int
  | Do_push Outputs
  | Ret_assert
  | Defcls Bytecode Offset
  | Defclsnop Bytecode Offset
  | Fpush Offset
  | End_fpi Offset
  | End_fpi_while nat
  | Emit_cells "cell list"
  | Emit_litstr string
  | Set_depth_zero
  | Set_lastOff Offset
  | Set_containsCalls
  | Emit_srcloc Bytecode Offset
  | Set_past BlockId Offset
  | Pop_regions Block

fun act :: "Func \<Rightarrow> action \<Rightarrow> step" where
  "act func (Emit_block b nxt) = emit_block func b nxt"
| "act func (Begin_block b) = begin_block b"
| "act func (Finish_block b nxt) = finish_block func b nxt"
| "act func (Emit_inst inst) = emit_inst func inst"
| "act func (Emit_opcode startOffset inst) = emit_opcode func startOffset inst"
| "act func (Emit_imm startOffset imm) = emit_imm func startOffset imm"
| "act func (Emit_branch startOffset i) = emit_branch startOffset i"
| "act func (Set_expected_depth i) = set_expected_depth i"
| "act func (Add_fixup i fixup) = pure_step (add_fixup i fixup)"
| "act func (Do_pop i inst) = do_pop i inst"
| "act func (Pop n) = pop n"
| "act func (Do_push u) = do_push u"
| "act func Ret_assert = ret_assert"
| "act func (Defcls inst startOffset) = defcls inst startOffset"
| "act func (Defclsnop inst startOffset) = defclsnop inst startOffset"
| "act func (Fpush startOffset) = pure_step (fpush startOffset)"
| "act func (End_fpi off) = end_fpi off"
| "act func (End_fpi_while e) = end_fpi_while e"
| "act func (Emit_cells cs) = pure_step (emitCells cs)"
| "act func (Emit_litstr s) = pure_step (emit_litstr s)"
| "act func Set_depth_zero = pure_step reset_depth"
| "act func (Set_lastOff off) = pure_step (set_lastOff off)"
| "act func Set_containsCalls = pure_step set_containsCalls"
| "act func (Emit_srcloc inst startOffset) = emit_srcloc func inst startOffset"
| "act func (Set_past i off) = pure_step (set_past i off)"
| "act func (Pop_regions b) = pop_regions func b"

definition run :: "Func \<Rightarrow> action list \<Rightarrow> step" where
  "run func acts = seq (map (act func) acts)"

subsection \<open>Vocabulary of the proofs\<close>

text \<open>
  \<open>keeps R f\<close>: every successful call of \<open>f\<close> relates the state before to the state
  after by \<open>R\<close>. \<open>depth_inv\<close>: the tracked depth and every recorded expected depth are
  non-negative. \<open>expected_kept\<close>, \<open>defcls_kept\<close>: what has been recorded in a block's
  expected depths, or in \<^verbatim>\<open>defClsMap\<close>, is still there.
\<close>

definition keeps :: "(EmitState \<Rightarrow> EmitState \<Rightarrow> bool) \<Rightarrow> step \<Rightarrow> bool" where
  "keeps R f = (\<forall>s s'. f s = Inr s' \<longrightarrow> R s s')"

definition preorder_rel :: "(EmitState \<Rightarrow> EmitState \<Rightarrow> bool) \<Rightarrow> bool" where
  "preorder_rel R = ((\<forall>s. R s s) \<and> (\<forall>a b c. R a b \<longrightarrow> R b c \<longrightarrow> R a c))"

definition depth_inv :: "EmitState \<Rightarrow> bool" where
  "depth_inv s =
     (0 \<le> currentStackDepth s
      \<and> (\<forall>info \<in> set (blockInfo s). \<forall>d. expectedStackDepth info = Some d \<longrightarrow> 0 \<le> d))"

definition depth_rel :: "EmitState \<Rightarrow> EmitState \<Rightarrow> bool" where
  "depth_rel s s' = (depth_inv s \<longrightarrow> depth_inv s')"

definition expected_kept :: "EmitState \<Rightarrow> EmitState \<Rightarrow> bool" where
  "expected_kept s s' =
     (length (blockInfo s') = length (blockInfo s)
      \<and> (\<forall>i < length (blockInfo s).
            (\<forall>d. expectedStackDepth (blockInfo s ! i) = Some d
                   \<longrightarrow> expectedStackDepth (blockInfo s' ! i) = Some d)
          \<and> (\<forall>d. expectedFPIDepth (blockInfo s ! i) = Some d
                   \<longrightarrow> expectedFPIDepth (blockInfo s' ! i) = Some d)))"

definition defcls_kept :: "EmitState \<Rightarrow> EmitState \<Rightarrow> bool" where
  "defcls_kept s s' =
     (length (defClsMap s') = length (defClsMap s)
      \<and> (\<forall>i < length (defClsMap s). defClsMap s ! i \<noteq> kInvalidOffset
            \<longrightarrow> defClsMap s' ! i = defClsMap s ! i))"


text \<open>
  \<open>imm_prims_keep R\<close>: \<open>R\<close> is reflexive and transitive and every elementary state
  change made while an immediate is emitted keeps it; \<open>inst_prims_keep R\<close> adds the other
  elementary state changes made while an instruction is emitted, \<open>prims_keep R\<close> those
  made at the head and the tail of a block. Whatever is built
  from them by sequencing then keeps \<open>R\<close> too.
\<close>

definition imm_prims_keep :: "(EmitState \<Rightarrow> EmitState \<Rightarrow> bool) \<Rightarrow> bool" where
  "imm_prims_keep R =
     (preorder_rel R
      \<and> (\<forall>cs. keeps R (pure_step (emitCells cs)))
      \<and> (\<forall>x. keeps R (pure_step (emit_litstr x)))
      \<and> (\<forall>a. keeps R (pure_step (emit_array a)))
      \<and> (\<forall>i. keeps R (set_expected_depth i))
      \<and> (\<forall>i fx. keeps R (pure_step (add_fixup i fx))))"

definition inst_prims_keep :: "(EmitState \<Rightarrow> EmitState \<Rightarrow> bool) \<Rightarrow> bool" where
  "inst_prims_keep R =
     (imm_prims_keep R
      \<and> (\<forall>n. keeps R (pop n))
      \<and> (\<forall>u. keeps R (do_push u))
      \<and> (\<forall>so. keeps R (pure_step (fpush so)))
      \<and> (\<forall>off. keeps R (end_fpi off))
      \<and> (\<forall>inst so. keeps R (defcls inst so))
      \<and> (\<forall>inst so. keeps R (defclsnop inst so))
      \<and> keeps R (pure_step reset_depth)
      \<and> keeps R (pure_step set_containsCalls)
      \<and> (\<forall>off. keeps R (pure_step (set_lastOff off)))
      \<and> (\<forall>func inst so. keeps R (emit_srcloc func inst so)))"

definition prims_keep :: "(EmitState \<Rightarrow> EmitState \<Rightarrow> bool) \<Rightarrow> bool" where
  "prims_keep R =
     (inst_prims_keep R
      \<and> (\<forall>i off. keeps R (pure_step (set_offset i off)))
      \<and> (\<forall>i off. keeps R (pure_step (set_past i off)))
      \<and> (\<forall>i r. keeps R (pure_step (set_regionsToPop i r)))
      \<and> (\<forall>v pos. keeps R (emitInt32_at v pos))
      \<and> (\<forall>i. keeps R (enter_depths i)))"

definition bc_same :: "EmitState \<Rightarrow> EmitState \<Rightarrow> bool" where
  "bc_same s s' = (bc s' = bc s)"

definition frame_bd :: "EmitState \<Rightarrow> EmitState \<Rightarrow> bool" where
  "frame_bd s s' = (blockInfo s' = blockInfo s \<and> currentStackDepth s' = currentStackDepth s)"

section \<open>The exception-handler table\<close>

text \<open>
  \<^verbatim>\<open>EHRegion\<close> objects are allocated while the layout is walked and referred to by
  pointer; here they live in a list in the order of their allocation and a pointer to a
  region is its index in that list. \<^verbatim>\<open>exnMap\<close> sends an exception node (by its id) to
  the regions made for it, oldest first. \<^verbatim>\<open>EHEnt\<close> is the runtime's table row.
\<close>

record EHRegion =
  node_r :: ExnNode
  parent_r :: "nat option"
  start_r :: Offset
  past_r :: Offset

datatype EHType = Catch_t | Fault_t

record EHEnt =
  m_type :: EHType
  m_base :: Offset
  m_past :: Offset
  m_handler :: Offset
  m_end :: Offset
  m_iterId :: int
  m_itRef :: bool
  m_parentIndex :: int

record EHWalk =
  regions :: "EHRegion list"
  exnMap :: "nat \<Rightarrow> nat list"
  activeList :: "ExnNode list"

type_synonym ParentIndexMap = "nat \<Rightarrow> nat option"

subsection \<open>\<^verbatim>\<open>emit_eh_region\<close>\<close>

definition emit_eh_region ::
  "EHRegion list \<Rightarrow> BlockInfo list \<Rightarrow> nat \<Rightarrow> EHEnt list \<times> ParentIndexMap
     \<Rightarrow> error + EHEnt list \<times> ParentIndexMap" where
  "emit_eh_region regs binfo r fe =
     (case fe of (ehtab, parentIndexMap) \<Rightarrow>
        let region = regs ! r in
        if start_r region = past_r region then Inr (ehtab, parentIndexMap)
        else if \<not> past_r region \<ge> start_r region then Inl AssertFail
        else if \<not> (start_r region \<noteq> kInvalidOffset \<and> past_r region \<noteq> kInvalidOffset)
        then Inl AssertFail
        else
          and_then
            (case parent_r region of
               Some p \<Rightarrow> (case parentIndexMap p of
                            None \<Rightarrow> Inl AssertFail
                          | Some i \<Rightarrow> Inr (int i))
             | None \<Rightarrow> Inr (- 1))
            (\<lambda>parentIndex.
               if \<not> entry (node_r region) < length binfo then Inl OutOfRange
               else
                 Inr (ehtab @
                      [(case info (node_r region) of
                          CatchRegion c it ir \<Rightarrow>
                            \<lparr>m_type = Catch_t, m_base = start_r region, m_past = past_r region,
                             m_handler = offset (binfo ! c), m_end = kInvalidOffset,
                             m_iterId = it, m_itRef = ir, m_parentIndex = parentIndex\<rparr>
                        | FaultRegion f it ir \<Rightarrow>
                            \<lparr>m_type = Fault_t, m_base = start_r region, m_past = past_r region,
                             m_handler = offset (binfo ! f), m_end = kInvalidOffset,
                             m_iterId = it, m_itRef = ir, m_parentIndex = parentIndex\<rparr>)],
                      parentIndexMap(r \<mapsto> length ehtab))))"

fun emit_eh_regions ::
  "EHRegion list \<Rightarrow> BlockInfo list \<Rightarrow> nat list \<Rightarrow> EHEnt list \<times> ParentIndexMap
     \<Rightarrow> error + EHEnt list \<times> ParentIndexMap" where
  "emit_eh_regions regs binfo [] fe = Inr fe"
| "emit_eh_regions regs binfo (r # rs) fe =
     and_then (emit_eh_region regs binfo r fe) (emit_eh_regions regs binfo rs)"

subsection \<open>The walk over the layout\<close>

fun exn_path :: "ExnNode option \<Rightarrow> ExnNode list" where
  "exn_path None = []"
| "exn_path (Some (ExnNode i d p nfo)) = exn_path p @ [ExnNode i d p nfo]"

fun shared_prefix :: "ExnNode list \<Rightarrow> ExnNode list \<Rightarrow> nat" where
  "shared_prefix (x # xs) (y # ys) =
     (if id_n x = id_n y then Suc (shared_prefix xs ys) else 0)"
| "shared_prefix _ _ = 0"

definition pop_active :: "Offset \<Rightarrow> EHWalk \<Rightarrow> error + EHWalk" where
  "pop_active pst w =
     (if activeList w = [] then Inl OutOfRange
      else
        (let p = last (activeList w) in
         if exnMap w (id_n p) = [] then Inl OutOfRange
         else
           (let r = last (exnMap w (id_n p)) in
            Inr (w\<lparr>activeList := butlast (activeList w),
                   regions := (regions w)[r := (regions w ! r)\<lparr>past_r := pst\<rparr>]\<rparr>))))"

definition push_active :: "ExnNode \<Rightarrow> Offset \<Rightarrow> EHWalk \<Rightarrow> error + EHWalk" where
  "push_active p start w =
     and_then
       (if activeList w = [] then Inr None
        else if exnMap w (id_n (last (activeList w))) = [] then Inl OutOfRange
        else Inr (Some (last (exnMap w (id_n (last (activeList w)))))))
       (\<lambda>par.
          Inr (w\<lparr>regions := regions w @
                     [\<lparr>node_r = p, parent_r = par, start_r = start,
                       past_r = kInvalidOffset\<rparr>],
                 exnMap := (exnMap w)(id_n p := exnMap w (id_n p) @ [length (regions w)]),
                 activeList := activeList w @ [p]\<rparr>))"

fun pop_times :: "nat \<Rightarrow> Offset \<Rightarrow> EHWalk \<Rightarrow> error + EHWalk" where
  "pop_times 0 pst w = Inr w"
| "pop_times (Suc n) pst w = and_then (pop_active pst w) (pop_times n pst)"

fun push_all :: "ExnNode list \<Rightarrow> Offset \<Rightarrow> EHWalk \<Rightarrow> error + EHWalk" where
  "push_all [] start w = Inr w"
| "push_all (p # ps) start w = and_then (push_active p start w) (push_all ps start)"

text \<open>
  One round of the loop over \<^verbatim>\<open>info.blockOrder\<close>. The check under \<^verbatim>\<open>if (debug)\<close> at
  its end is an assertion like the others.
\<close>

definition walk_block :: "BlockInfo list \<Rightarrow> Block \<Rightarrow> EHWalk \<Rightarrow> error + EHWalk" where
  "walk_block binfo b w =
     (if \<not> id_b b < length binfo then Inl OutOfRange
      else
        (let off = offset (binfo ! id_b b) in
         case exnNode b of
           None \<Rightarrow> pop_times (length (activeList w)) off w
         | Some n \<Rightarrow>
             (let current = exn_path (Some n);
                  prefix = shared_prefix current (activeList w)
              in and_then (pop_times (length (activeList w) - prefix) off w) (\<lambda>w1.
                 and_then (push_all (drop prefix current) off w1) (\<lambda>w2.
                 and_then (pop_times (nat (regionsToPop (binfo ! id_b b)))
                             (past (binfo ! id_b b)) w2) (\<lambda>w3.
                   if activeList w3 \<noteq> []
                      \<and> map id_n (exn_path (Some (last (activeList w3))))
                          \<noteq> map id_n (activeList w3)
                   then Inl AssertFail else Inr w3))))))"

fun walk_blocks :: "BlockInfo list \<Rightarrow> Block list \<Rightarrow> EHWalk \<Rightarrow> error + EHWalk" where
  "walk_blocks binfo [] w = Inr w"
| "walk_blocks binfo (b # bs) w = and_then (walk_block binfo b w) (walk_blocks binfo bs)"

definition walk_layout :: "BlockInfo list \<Rightarrow> Block list \<Rightarrow> error + EHWalk" where
  "walk_layout binfo blockOrder =
     and_then (walk_blocks binfo blockOrder
                 \<lparr>regions = [], exnMap = (\<lambda>_. []), activeList = []\<rparr>) (\<lambda>w.
       if activeList w = [] then Inr w
       else if blockOrder = [] \<or> \<not> id_b (last blockOrder) < length binfo then Inl OutOfRange
       else pop_times (length (activeList w)) (past (binfo ! id_b (last blockOrder))) w)"

subsection \<open>The order of the table\<close>

text \<open>
  The ancestors of a region, nearest first; a parent is allocated before its children,
  so the chain is not longer than the list of regions. \<open>region_less\<close> is the comparator
  handed to \<^verbatim>\<open>std::sort\<close>; its check under \<^verbatim>\<open>if (debug)\<close>, that of two different regions
  with the same extent one is an ancestor of the other, is an assertion like the others,
  so a comparison can fail. \<^verbatim>\<open>std::sort\<close> itself is the library's; it is modelled by
  insertion of every element into the sorted rest, which fails when a comparison it makes
  fails, and the vector it is given lists the regions node by node, as the map from nodes
  to regions does (nodes in the order of their ids).
\<close>

fun ancestors_r :: "EHRegion list \<Rightarrow> nat \<Rightarrow> nat \<Rightarrow> nat list" where
  "ancestors_r regs 0 r = []"
| "ancestors_r regs (Suc n) r =
     (case parent_r (regs ! r) of None \<Rightarrow> [] | Some p \<Rightarrow> p # ancestors_r regs n p)"

definition is_ancestor :: "EHRegion list \<Rightarrow> nat \<Rightarrow> nat \<Rightarrow> bool" where
  "is_ancestor regs a b = (a \<in> set (ancestors_r regs (length regs) b))"

definition region_less :: "EHRegion list \<Rightarrow> nat \<Rightarrow> nat \<Rightarrow> error + bool" where
  "region_less regs a b =
     (if a = b then Inr False
      else if start_r (regs ! a) = start_r (regs ! b) then
        (if past_r (regs ! a) = past_r (regs ! b) then
           (if is_ancestor regs a b then Inr True
            else if \<not> is_ancestor regs b a then Inl AssertFail
            else Inr False)
         else Inr (past_r (regs ! a) > past_r (regs ! b)))
      else Inr (start_r (regs ! a) < start_r (regs ! b)))"

fun insert_by :: "('a \<Rightarrow> 'a \<Rightarrow> error + bool) \<Rightarrow> 'a \<Rightarrow> 'a list \<Rightarrow> error + 'a list" where
  "insert_by lt x [] = Inr [x]"
| "insert_by lt x (y # ys) =
     and_then (lt y x) (\<lambda>c.
       if c then and_then (insert_by lt x ys) (\<lambda>zs. Inr (y # zs)) else Inr (x # y # ys))"

fun sort_by :: "('a \<Rightarrow> 'a \<Rightarrow> error + bool) \<Rightarrow> 'a list \<Rightarrow> error + 'a list" where
  "sort_by lt [] = Inr []"
| "sort_by lt (x # xs) = and_then (sort_by lt xs) (insert_by lt x)"

definition regions_by_node :: "EHRegion list \<Rightarrow> nat list" where
  "regions_by_node regs =
     concat (map (\<lambda>k. filter (\<lambda>r. id_n (node_r (regs ! r)) = k) [0 ..< length regs])
                 (sort (remdups (map (\<lambda>r. id_n (node_r r)) regs))))"

definition emit_ehent_tree :: "BlockInfo list \<Rightarrow> Block list \<Rightarrow> error + EHEnt list" where
  "emit_ehent_tree binfo blockOrder =
     and_then (walk_layout binfo blockOrder) (\<lambda>w.
     and_then (sort_by (region_less (regions w)) (regions_by_node (regions w))) (\<lambda>sorted.
     and_then (emit_eh_regions (regions w) binfo sorted ([], Map.empty))
              (\<lambda>fe. Inr (fst fe))))"

subsection \<open>Vocabulary of the proofs about the exception table\<close>

definition eh_ok :: "EHEnt \<Rightarrow> bool" where
  "eh_ok e = (m_base e < m_past e \<and> m_base e \<noteq> kInvalidOffset \<and> m_past e \<noteq> kInvalidOffset)"

section \<open>The unit driver\<close>

text \<open>
  Of a class, \<^verbatim>\<open>emit_unit\<close> matters here for its methods, and for its constants as far as
  they decide whether the method \<^verbatim>\<open>86cinit\<close> is emitted; of a function emitter, for the
  FPI table, the exception table, the parameters and the locals; of a pre-class emitter,
  for its offset. The remaining metadata (attributes, type aliases, the types asked from
  the \<^verbatim>\<open>Index\<close>, which is outside the source at hand, and the class names interned for
  them) is left out: no offset and no assertion below depends on it.
\<close>

datatype DataType = KindOfUninit | KindOfOther nat

record Const =
  name_c :: string
  val_c :: "DataType option"

record Method =
  name_m :: string
  func_m :: Func

record Class =
  name_cls :: string
  constants :: "Const list"
  methods :: "Method list"

record Unit =
  pseudomain :: Func
  classes :: "Class list"
  funcs :: "Func list"

text \<open>
  Modelled from the spec: the function emitter, whose class \<^verbatim>\<open>FuncEmitter\<close> belongs to
  \<^verbatim>\<open>func-emitter.h\<close>. It holds the FPI table, the exception table, the parameter
  metadata (of which the funclet offset is kept here) and the table of its locals: a
  named local is entered once and gets the next id, an unnamed local always gets the
  next id, and the number of locals is the number of ids given.
\<close>

record ParamInfo =
  funcletOff :: "Offset option"

record FuncEmitter =
  fe_fpitab :: "FPI list"
  fe_ehtab :: "EHEnt list"
  fe_containsCalls :: bool
  fe_params :: "ParamInfo list"
  fe_localNames :: "string option list"

record UnitState =
  est :: EmitState
  pces :: "Offset list"
  fes :: "FuncEmitter list"

type_synonym rpo = "Func \<Rightarrow> Block list"

definition allocVarId :: "string option \<Rightarrow> FuncEmitter \<Rightarrow> FuncEmitter" where
  "allocVarId name fe =
     (if name \<in> set (fe_localNames fe) then fe
      else fe\<lparr>fe_localNames := fe_localNames fe @ [name]\<rparr>)"

definition lookupVarId :: "string option \<Rightarrow> FuncEmitter \<Rightarrow> nat" where
  "lookupVarId name fe = length (takeWhile (\<lambda>n. n \<noteq> name) (fe_localNames fe))"

definition allocUnnamedLocal :: "FuncEmitter \<Rightarrow> FuncEmitter" where
  "allocUnnamedLocal fe = fe\<lparr>fe_localNames := fe_localNames fe @ [None]\<rparr>"

definition numLocals :: "FuncEmitter \<Rightarrow> nat" where
  "numLocals fe = length (fe_localNames fe)"

definition appendParam :: "string option \<Rightarrow> ParamInfo \<Rightarrow> FuncEmitter \<Rightarrow> FuncEmitter" where
  "appendParam name pinfo fe = (allocVarId name fe)\<lparr>fe_params := fe_params fe @ [pinfo]\<rparr>"

text \<open>
  \<^verbatim>\<open>emit_locals_and_params\<close>: the loop over \<^verbatim>\<open>func.locals\<close> with its counter \<^verbatim>\<open>id\<close>, then
  the assertion on the number of locals. The iterator and class-ref counts and the static
  locals are copied into fields that nothing reads.
\<close>

definition set_funcletOff :: "BlockInfo list \<Rightarrow> Param \<Rightarrow> nat \<Rightarrow> FuncEmitter \<Rightarrow> error + FuncEmitter" where
  "set_funcletOff binfo param i fe =
     (let dv = dvEntryPoint param in
      if dv \<noteq> NoBlockId then
        (if \<not> dv < length binfo \<or> \<not> i < length (fe_params fe) then Inl OutOfRange
         else Inr (fe\<lparr>fe_params := (fe_params fe)
                     [i := (fe_params fe ! i)\<lparr>funcletOff := Some (offset (binfo ! dv))\<rparr>]\<rparr>))
      else Inr fe)"

fun locals_loop ::
  "Func \<Rightarrow> BlockInfo list \<Rightarrow> Local list \<Rightarrow> nat \<Rightarrow> FuncEmitter \<Rightarrow> error + nat \<times> FuncEmitter" where
  "locals_loop func binfo [] i fe = Inr (i, fe)"
| "locals_loop func binfo (loc # locs) i fe =
     (if id_l loc < length (params func) then
        (if killed loc then Inl AssertFail
         else if \<not> i < length (params func) \<or> \<not> i < length (locals func) then Inl OutOfRange
         else
           and_then (set_funcletOff binfo (params func ! i) i
                       (appendParam (name_l (locals func ! i)) \<lparr>funcletOff = None\<rparr> fe))
                    (locals_loop func binfo locs (Suc i)))
      else if \<not> killed loc then
        (case name_l loc of
           Some n \<Rightarrow>
             (let fe1 = allocVarId (Some n) fe in
              if lookupVarId (Some n) fe1 \<noteq> i then Inl AssertFail
              else if id_l loc \<noteq> i then Inl AssertFail
              else locals_loop func binfo locs (Suc i) fe1)
         | None \<Rightarrow> locals_loop func binfo locs (Suc i) (allocUnnamedLocal fe))
      else locals_loop func binfo locs i fe)"

definition emit_locals_and_params :: "Func \<Rightarrow> BlockInfo list \<Rightarrow> FuncEmitter \<Rightarrow> error + FuncEmitter" where
  "emit_locals_and_params func binfo fe =
     and_then (locals_loop func binfo (locals func) 0 fe) (\<lambda>r.
       if numLocals (snd r) \<noteq> fst r then Inl AssertFail else Inr (snd r))"

text \<open>
  \<^verbatim>\<open>emit_finish_func\<close> on a fresh function emitter: the flag, the FPI table,
  \<^verbatim>\<open>emit_locals_and_params\<close> and \<^verbatim>\<open>emit_ehent_tree\<close>; what follows copies metadata.
\<close>

definition newFuncEmitter :: FuncEmitter where
  "newFuncEmitter = \<lparr>fe_fpitab = [], fe_ehtab = [], fe_containsCalls = False,
                      fe_params = [], fe_localNames = []\<rparr>"

definition emit_finish_func :: "Func \<Rightarrow> Block list \<Rightarrow> EmitState \<Rightarrow> error + FuncEmitter" where
  "emit_finish_func func blockOrder st =
     and_then (emit_locals_and_params func (blockInfo st)
                 (newFuncEmitter\<lparr>fe_containsCalls := containsCalls st,
                                  fe_fpitab := fpiRegions st\<rparr>)) (\<lambda>fe.
     and_then (emit_ehent_tree (blockInfo st) blockOrder) (\<lambda>eh.
       Inr (fe\<lparr>fe_ehtab := eh\<rparr>)))"

text \<open>
  \<^verbatim>\<open>emit_bytecode\<close> followed by \<^verbatim>\<open>emit_finish_func\<close>, as \<^verbatim>\<open>emit_pseudomain\<close> calls them;
  \<^verbatim>\<open>emit_func\<close> and the loop over the methods call \<^verbatim>\<open>emit_init_func\<close> first.
\<close>

definition emit_body :: "rpo \<Rightarrow> rpo \<Rightarrow> Func \<Rightarrow> UnitState \<Rightarrow> error + UnitState" where
  "emit_body rpoSortFromMain rpoSortAddDVs func u =
     and_then (emit_bytecode rpoSortFromMain rpoSortAddDVs func (est u)) (\<lambda>r.
     and_then (emit_finish_func func (fst r) (snd r)) (\<lambda>fe.
       Inr (u\<lparr>est := snd r, fes := fes u @ [fe]\<rparr>)))"

definition emit_pseudomain :: "rpo \<Rightarrow> rpo \<Rightarrow> Func \<Rightarrow> UnitState \<Rightarrow> error + UnitState" where
  "emit_pseudomain rpoSortFromMain rpoSortAddDVs pm =
     emit_body rpoSortFromMain rpoSortAddDVs pm"

definition emit_func :: "rpo \<Rightarrow> rpo \<Rightarrow> Func \<Rightarrow> UnitState \<Rightarrow> error + UnitState" where
  "emit_func rpoSortFromMain rpoSortAddDVs func =
     emit_body rpoSortFromMain rpoSortAddDVs (emit_init_func func)"

fun emit_funcs :: "rpo \<Rightarrow> rpo \<Rightarrow> Func list \<Rightarrow> UnitState \<Rightarrow> error + UnitState" where
  "emit_funcs rM rD [] u = Inr u"
| "emit_funcs rM rD (f # fs) u = and_then (emit_func rM rD f u) (emit_funcs rM rD fs)"

fun emit_methods :: "rpo \<Rightarrow> rpo \<Rightarrow> bool \<Rightarrow> Method list \<Rightarrow> UnitState \<Rightarrow> error + UnitState" where
  "emit_methods rM rD needs86cinit [] u = Inr u"
| "emit_methods rM rD needs86cinit (m # ms) u =
     (if \<not> needs86cinit \<and> name_m m = ''86cinit'' then emit_methods rM rD needs86cinit ms u
      else and_then (emit_func rM rD (func_m m) u) (emit_methods rM rD needs86cinit ms))"

definition needs86cinit_of :: "Class \<Rightarrow> bool" where
  "needs86cinit_of cls = (\<exists>c \<in> set (constants cls). val_c c = Some KindOfUninit)"

definition emit_class :: "rpo \<Rightarrow> rpo \<Rightarrow> Class \<Rightarrow> UnitState \<Rightarrow> error + UnitState" where
  "emit_class rM rD cls u =
     emit_methods rM rD (needs86cinit_of cls) (methods cls)
       (u\<lparr>pces := pces u @ [bcPos (est u)]\<rparr>)"

fun emit_classes :: "rpo \<Rightarrow> rpo \<Rightarrow> Class list \<Rightarrow> UnitState \<Rightarrow> error + UnitState" where
  "emit_classes rM rD [] u = Inr u"
| "emit_classes rM rD (c # cs) u = and_then (emit_class rM rD c u) (emit_classes rM rD cs)"

text \<open>The last loop of \<^verbatim>\<open>emit_unit\<close>, over the class ids.\<close>

fun set_pce_offsets :: "nat \<Rightarrow> UnitState \<Rightarrow> error + UnitState" where
  "set_pce_offsets 0 u = Inr u"
| "set_pce_offsets (Suc n) u =
     and_then (set_pce_offsets n u) (\<lambda>u.
       if \<not> n < length (defClsMap (est u)) then Inl OutOfRange
       else if defClsMap (est u) ! n \<noteq> kInvalidOffset then
         (if \<not> n < length (pces u) then Inl OutOfRange
          else Inr (u\<lparr>pces := (pces u)[n := defClsMap (est u) ! n]\<rparr>))
       else Inr u)"

text \<open>
  What \<^verbatim>\<open>emit_unit\<close> still does once a function has been emitted: the remaining methods
  of the class at hand, the remaining classes, the top-level functions, and the loop
  that writes the recorded offsets; \<open>n\<close> is the number of classes of the unit.
\<close>

definition finish_unit ::
  "rpo \<Rightarrow> rpo \<Rightarrow> bool \<Rightarrow> Method list \<Rightarrow> Class list \<Rightarrow> Func list \<Rightarrow> nat \<Rightarrow> UnitState
     \<Rightarrow> error + UnitState" where
  "finish_unit rM rD needs86cinit ms cs fs n u =
     and_then (emit_methods rM rD needs86cinit ms u) (\<lambda>u.
     and_then (emit_classes rM rD cs u) (\<lambda>u.
     and_then (emit_funcs rM rD fs u) (set_pce_offsets n)))"

definition unit_start :: "Unit \<Rightarrow> UnitState" where
  "unit_start unit =
     \<lparr>est = \<lparr>bc = [], litstrs = [], arrays = [], sourceLocTab = [],
              defClsMap = replicate (length (classes unit)) kInvalidOffset,
              blockInfo = [], maxStackDepth = 0, maxFpiDepth = 0, containsCalls = False,
              fpiRegions = [], currentStackDepth = 0, fpiStack = [], lastOff = 0\<rparr>,
      pces = [], fes = []\<rparr>"

definition emit_unit :: "rpo \<Rightarrow> rpo \<Rightarrow> Unit \<Rightarrow> error + UnitState" where
  "emit_unit rM rD unit =
     and_then (emit_pseudomain rM rD (pseudomain unit) (unit_start unit))
       (finish_unit rM rD False [] (classes unit) (funcs unit) (length (classes unit)))"

subsection \<open>Vocabulary of the proofs about the unit driver\<close>

text \<open>
  \<open>opcode_tail\<close>: what the lambda of an opcode does after the hooks for \<^verbatim>\<open>DefCls\<close> and
  \<^verbatim>\<open>DefClsNop\<close>. \<open>unit_kept\<close>: the recorded class offsets are still there and no pre-class
  emitter has gone.
\<close>

definition opcode_tail :: "Func \<Rightarrow> Offset \<Rightarrow> Bytecode \<Rightarrow> step list" where
  "opcode_tail func so inst =
     [when_do (isRet (op inst)) ret_assert,
           pure_step (emitOp (op inst)),
           do_pop (inputs inst) inst,
           do_push (outputs inst)]
          @ map (emit_imm func so) (imms inst)
          @ [when_do (isFPush (op inst)) (pure_step (fpush so)),
             when_do (isFCallStar (op inst)) (fcall so),
             when_do (TF inst) (pure_step reset_depth),
             when_do (op inst = FCall \<or> op inst = FCallD) (pure_step set_containsCalls),
             emit_srcloc func inst so]"

definition unit_kept :: "UnitState \<Rightarrow> UnitState \<Rightarrow> bool" where
  "unit_kept u u' = (defcls_kept (est u) (est u') \<and> length (pces u) \<le> length (pces u'))"

subsection \<open>Invariants of the FPI stack and the FPI regions\<close>

text \<open>
  \<open>opcode_front\<close> and \<open>opcode_back\<close> cut the lambda of an opcode before the \<^verbatim>\<open>fpush\<close> hook.
  \<open>fpi_frame\<close> and \<open>fpi_same\<close>: a call leaves the FPI stack, the FPI regions and
  \<^verbatim>\<open>lastOff\<close> alone, and the stream does not shrink (has the same length).
  \<open>fpi_before a b\<close>: region \<open>b\<close>, closed after \<open>a\<close>, either encloses \<open>a\<close> or starts where \<open>a\<close>
  has ended; \<open>fpi_nested\<close> says so of every two regions of a list, in the order of the list.
  \<open>fpi_inv\<close> is the invariant of the emission loop between two instructions,
  \<open>fpi_strict\<close> says that no closed region is empty,
  \<open>fpi_closable\<close> says that every open region starts before \<^verbatim>\<open>lastOff\<close>, and
  \<open>fpi_boundary\<close> is what holds between two blocks. \<open>exits_ok\<close>: a block without a
  fall-through is not empty and does not end in an instruction of the fpush family.
  \<open>fpush_count\<close> counts the instructions of the fpush family.
\<close>

definition fpi_frame :: "EmitState \<Rightarrow> EmitState \<Rightarrow> bool" where
  "fpi_frame s s' =
     (fpiStack s' = fpiStack s \<and> fpiRegions s' = fpiRegions s \<and> lastOff s' = lastOff s
      \<and> length (bc s) \<le> length (bc s'))"

definition opcode_front :: "Func \<Rightarrow> Offset \<Rightarrow> Bytecode \<Rightarrow> step list" where
  "opcode_front func so inst =
     [when_do (op inst = DefCls) (defcls inst so),
      when_do (op inst = DefClsNop) (defclsnop inst so),
      when_do (isRet (op inst)) ret_assert,
      pure_step (emitOp (op inst)),
      do_pop (inputs inst) inst,
      do_push (outputs inst)]
     @ map (emit_imm func so) (imms inst)"

definition opcode_back :: "Func \<Rightarrow> Offset \<Rightarrow> Bytecode \<Rightarrow> step list" where
  "opcode_back func so inst =
     [when_do (isFPush (op inst)) (pure_step (fpush so)),
      when_do (isFCallStar (op inst)) (fcall so),
      when_do (TF inst) (pure_step reset_depth),
      when_do (op inst = FCall \<or> op inst = FCallD) (pure_step set_containsCalls),
      emit_srcloc func inst so]"












subsection \<open>Example locals\<close>

definition ex_locals :: Func where
  "ex_locals = \<lparr>locals = [\<lparr>id_l = 0, killed = True, name_l = None\<rparr>,
                \<lparr>id_l = 1, killed = False, name_l = None\<rparr>,
                \<lparr>id_l = 2, killed = False, name_l = None\<rparr>],
     params = [], blocks = [], srcLocs = []\<rparr>"

definition ex_locals_live :: Func where
  "ex_locals_live = \<lparr>locals = [\<lparr>id_l = 0, killed = False, name_l = None\<rparr>,
                     \<lparr>id_l = 1, killed = False, name_l = None\<rparr>,
                     \<lparr>id_l = 2, killed = True, name_l = None\<rparr>],
     params = [], blocks = [], srcLocs = []\<rparr>"

subsection \<open>Example functions and states\<close>

definition ex_state :: EmitState where
  "ex_state = \<lparr>bc = [], litstrs = [], arrays = [], sourceLocTab = [],
     defClsMap = [kInvalidOffset], blockInfo = [], maxStackDepth = 0, maxFpiDepth = 0,
     containsCalls = False, fpiRegions = [], currentStackDepth = 0, fpiStack = [],
     lastOff = 0\<rparr>"

definition ex_inst :: "Op \<Rightarrow> Imm list \<Rightarrow> Inputs \<Rightarrow> Outputs \<Rightarrow> bool \<Rightarrow> Bytecode" where
  "ex_inst opc is i u t = \<lparr>op = opc, imms = is, inputs = i, outputs = u, TF = t, srcLoc = - 1\<rparr>"

definition ex_Nop :: Bytecode where
  "ex_Nop = ex_inst Nop [] POP_NOV PUSH_NOV False"

definition ex_Int :: Bytecode where
  "ex_Int = ex_inst (OtherOp 1) [I64A 1] POP_NOV PUSH_ONE False"

definition ex_JmpZ :: "BlockId \<Rightarrow> Bytecode" where
  "ex_JmpZ t = ex_inst (OtherOp 2) [BA t] POP_ONE PUSH_NOV False"

definition ex_RetC :: Bytecode where
  "ex_RetC = ex_inst (RetOp 0) [] POP_ONE PUSH_NOV True"

definition ex_PopC :: Bytecode where
  "ex_PopC = ex_inst (OtherOp 3) [] POP_ONE PUSH_NOV False"

definition ex_DefCls :: "nat \<Rightarrow> Bytecode" where
  "ex_DefCls n = ex_inst DefCls [IVA n] POP_NOV PUSH_NOV False"

definition ex_FPush :: Bytecode where
  "ex_FPush = ex_inst (FPushOp 0) [IVA 0] POP_NOV PUSH_NOV False"

definition ex_FCall :: Bytecode where
  "ex_FCall = ex_inst FCall [IVA 0] POP_FMANY PUSH_ONE False"

text \<open>
  A function of three blocks: block 0 pushes a value and branches forward to block 2 when
  it is zero, block 1 is the fall-through, block 2 returns.
\<close>

definition ex_func :: Func where
  "ex_func = \<lparr>locals = [],
     params = [], blocks = [\<lparr>id_b = 0, hhbcs = [ex_Int, ex_JmpZ 2], section_b = Main, fallthrough = 1,
                 fallthroughNS = False, exnNode = None\<rparr>,
               \<lparr>id_b = 1, hhbcs = [ex_Nop], section_b = Main, fallthrough = 2,
                 fallthroughNS = False, exnNode = None\<rparr>,
               \<lparr>id_b = 2, hhbcs = [ex_Int, ex_RetC], section_b = Main,
                 fallthrough = NoBlockId, fallthroughNS = False, exnNode = None\<rparr>],
     srcLocs = []\<rparr>"

text \<open>
  States of the emission of \<open>ex_func\<close>: \<open>ex_site\<close> is the state in which the branch of
  block 0 calls \<^verbatim>\<open>set_expected_depth\<close> for block 2, \<open>ex_site_done\<close> the state after that
  call, and \<open>ex_fall\<close> the state in which block 1 falls through to block 2.
\<close>

definition ex_site :: EmitState where
  "ex_site = projr (run ex_func [Begin_block (blocks ex_func ! 0), Emit_inst ex_Int,
                                 Set_lastOff 9, Emit_cells [OpByte (OtherOp 2)], Pop 1]
                      (init_state ex_func ex_state))"

definition ex_site_done :: EmitState where
  "ex_site_done = projr (set_expected_depth 2 ex_site)"

definition ex_rest :: "action list" where
  "ex_rest = [Add_fixup 2 \<lparr>instrOff = 9, jmpImmedOff = 10\<rparr>,
              Emit_cells (map Byte (int32_bytes 0)),
              Finish_block (blocks ex_func ! 0) (Some (blocks ex_func ! 1)),
              Begin_block (blocks ex_func ! 1), Emit_inst ex_Nop,
              Set_past 1 14]"

definition ex_fall :: EmitState where
  "ex_fall = projr (run ex_func ex_rest ex_site_done)"

text \<open>
  A layout of four blocks for the exception table: block 0 lies in a catch region, block
  1 in a fault region and emits no byte, blocks 2 and 3 lie in no region; block 3 is the
  handler of both.
\<close>

definition ex_N1 :: ExnNode where
  "ex_N1 = ExnNode 1 1 None (CatchRegion 3 0 False)"

definition ex_N2 :: ExnNode where
  "ex_N2 = ExnNode 2 1 None (FaultRegion 3 0 False)"

definition ex_eh_order :: "Block list" where
  "ex_eh_order =
     [\<lparr>id_b = 0, hhbcs = [ex_Int, ex_PopC], section_b = Main, fallthrough = 1,
       fallthroughNS = False, exnNode = Some ex_N1\<rparr>,
      \<lparr>id_b = 1, hhbcs = [ex_Nop], section_b = Main, fallthrough = 2,
       fallthroughNS = False, exnNode = Some ex_N2\<rparr>,
      \<lparr>id_b = 2, hhbcs = [ex_Int, ex_RetC], section_b = Main, fallthrough = NoBlockId,
       fallthroughNS = False, exnNode = None\<rparr>,
      \<lparr>id_b = 3, hhbcs = [ex_Int, ex_RetC], section_b = Main, fallthrough = NoBlockId,
       fallthroughNS = False, exnNode = None\<rparr>]"

definition ex_eh_info :: "BlockInfo list" where
  "ex_eh_info =
     [BlockInfo_init\<lparr>offset := 0, past := 10\<rparr>, BlockInfo_init\<lparr>offset := 10, past := 10\<rparr>,
      BlockInfo_init\<lparr>offset := 10, past := 20\<rparr>, BlockInfo_init\<lparr>offset := 20, past := 30\<rparr>]"

definition ex_eh_regions :: "EHRegion list" where
  "ex_eh_regions =
     [\<lparr>node_r = ex_N1, parent_r = None, start_r = 0, past_r = 10\<rparr>,
      \<lparr>node_r = ex_N2, parent_r = None, start_r = 10, past_r = 10\<rparr>]"

text \<open>
  A unit whose pseudomain defines its one class and returns; the class has no method.
\<close>

definition ex_pm :: Func where
  "ex_pm = \<lparr>locals = [],
     params = [], blocks = [\<lparr>id_b = 0, hhbcs = [ex_Int, ex_PopC, ex_DefCls 0, ex_Int, ex_RetC],
                 section_b = Main, fallthrough = NoBlockId, fallthroughNS = False,
                 exnNode = None\<rparr>],
     srcLocs = []\<rparr>"

definition ex_unit :: Unit where
  "ex_unit = \<lparr>pseudomain = ex_pm,
               classes = [\<lparr>name_cls = ''C'', constants = [], methods = []\<rparr>],
               funcs = []\<rparr>"

definition ex_defcls_site :: EmitState where
  "ex_defcls_site = projr (run ex_pm [Begin_block (blocks ex_pm ! 0), Emit_inst ex_Int,
                                     Emit_inst ex_PopC]
                             (init_state ex_pm (est (unit_start ex_unit))))"

definition ex_defcls_rest :: "action list" where
  "ex_defcls_rest = [Emit_inst ex_Int, Emit_inst ex_RetC,
                     Finish_block (blocks ex_pm ! 0) None, End_fpi_while 0]"

definition ex_defcls_done :: EmitState where
  "ex_defcls_done = projr (emit_inst ex_pm (ex_DefCls 0) ex_defcls_site)"

definition ex_pm_end :: UnitState where
  "ex_pm_end = \<lparr>est = projr (run ex_pm ex_defcls_rest ex_defcls_done), pces = [], fes = []\<rparr>"









text \<open>An instruction with a local immediate.\<close>

definition ex_CGetL :: "LocalId \<Rightarrow> Bytecode" where
  "ex_CGetL l = ex_inst (OtherOp 4) [LA l] POP_NOV PUSH_ONE False"


subsection \<open>The block order as the specification words it\<close>

text \<open>
  The specification builds the DV part from the second traversal by removing the main
  entry and what of the main list occurs before it (\<open>dvBlocks_spec\<close>); read as
  "the main entry and everything before it", what stays is the part after the main entry
  (\<open>dvBlocks_spec_suffix\<close>). Both are compared with \<open>dvBlocks\<close> of the source.
\<close>

definition dvBlocks_spec :: "Block list \<Rightarrow> Block list \<Rightarrow> Block list" where
  "dvBlocks_spec rpoMain rpoDVs =
     filter (\<lambda>b. id_b b \<notin> set (map id_b rpoMain))
            (takeWhile (\<lambda>b. id_b b \<noteq> id_b (hd rpoMain)) rpoDVs)
     @ tl (dropWhile (\<lambda>b. id_b b \<noteq> id_b (hd rpoMain)) rpoDVs)"

definition dvBlocks_spec_suffix :: "Block list \<Rightarrow> Block list \<Rightarrow> Block list" where
  "dvBlocks_spec_suffix rpoMain rpoDVs =
     tl (dropWhile (\<lambda>b. id_b b \<noteq> id_b (hd rpoMain)) rpoDVs)"

definition order_spec :: "(Block list \<Rightarrow> Block list \<Rightarrow> Block list) \<Rightarrow> Block list \<Rightarrow> Block list \<Rightarrow> Block list" where
  "order_spec dv rpoMain rpoDVs =
     sort_key (\<lambda>b. section_rank (section_b b)) (rpoMain @ dv rpoMain rpoDVs)"

definition ex_block :: "BlockId \<Rightarrow> Section \<Rightarrow> BlockId \<Rightarrow> Block" where
  "ex_block i s ft = \<lparr>id_b = i, hhbcs = [], section_b = s, fallthrough = ft,
                       fallthroughNS = False, exnNode = None\<rparr>"

definition ex_M :: "Block list" where "ex_M = [ex_block 0 Main 1, ex_block 1 Main NoBlockId]"
definition ex_W :: "Block list" where "ex_W = [ex_block 2 Main 0, ex_block 0 Main 1, ex_block 1 Main NoBlockId]"

definition ex_M2 :: "Block list" where "ex_M2 = [ex_block 0 Main 1, ex_block 1 Fault NoBlockId]"
definition ex_W2 :: "Block list" where "ex_W2 = [ex_block 2 Main 0, ex_block 0 Main 1, ex_block 1 Fault NoBlockId]"

subsection \<open>The payload of the immediates as the specification words it\<close>

text \<open>
  The table of section 4.2 of the specification, as a function from the immediates of an
  instruction to the bytes that follow the opcode tag. An encoding reads and extends the
  two literal tables of the sink (\<open>str_id\<close>, \<open>arr_id\<close>: the 32-bit id obtained by
  interning) or writes fixed bytes (\<open>lit\<close>); \<open>cat\<close> puts encodings one after the other.
  \<open>branch_cells\<close> is the 32-bit offset of a branch relative to the opcode byte, or the
  placeholder 0 while the target has no offset; \<open>os\<close> lists the offsets of the blocks
  and \<open>so\<close> is the offset of the opcode byte. A local is written as the id that
  \<^verbatim>\<open>map_local\<close> gives it. \<open>payload\<close> is the payload of all immediates, in schema order.
\<close>

type_synonym tables = "string list \<times> nat list"
type_synonym enc = "tables \<Rightarrow> cell list \<times> tables"

definition lit :: "cell list \<Rightarrow> enc" where
  "lit cs tb = (cs, tb)"

fun cat :: "enc list \<Rightarrow> enc" where
  "cat [] tb = ([], tb)"
| "cat (e # es) tb =
     (case e tb of (c, tb1) \<Rightarrow> (case cat es tb1 of (cs, tb2) \<Rightarrow> (c @ cs, tb2)))"

definition int32_cells :: "int \<Rightarrow> cell list" where
  "int32_cells v = map Byte (int32_bytes v)"

definition int64_cells :: "int \<Rightarrow> cell list" where
  "int64_cells v = map Byte (int64_bytes v)"

definition iva_cells :: "nat \<Rightarrow> cell list" where
  "iva_cells n =
     (if n < 128 then [Byte (of_nat n)]
      else int32_cells (int ((n div 128) * 256 + 128 + n mod 128)))"

definition str_id :: "string \<Rightarrow> enc" where
  "str_id s tb = (case intern s (fst tb) of (i, t) \<Rightarrow> (int32_cells i, (t, snd tb)))"

definition arr_id :: "nat \<Rightarrow> enc" where
  "arr_id a tb = (case intern a (snd tb) of (i, t) \<Rightarrow> (int32_cells i, (fst tb, t)))"

definition branch_cells :: "Offset list \<Rightarrow> Offset \<Rightarrow> BlockId \<Rightarrow> cell list" where
  "branch_cells os so t = int32_cells (if os ! t \<noteq> kInvalidOffset then os ! t - so else 0)"

definition local_cells :: "Func \<Rightarrow> LocalId \<Rightarrow> cell list" where
  "local_cells func l = iva_cells (id_l (locals func ! l))"

fun mkey_payload :: "Func \<Rightarrow> MKey \<Rightarrow> enc" where
  "mkey_payload func (MEC i) = lit (Byte 0 # iva_cells i)"
| "mkey_payload func (MPC i) = lit (Byte 1 # iva_cells i)"
| "mkey_payload func (MEL l) = lit (Byte 2 # local_cells func l)"
| "mkey_payload func (MPL l) = lit (Byte 3 # local_cells func l)"
| "mkey_payload func (MET s) = cat [lit [Byte 4], str_id s]"
| "mkey_payload func (MPT s) = cat [lit [Byte 5], str_id s]"
| "mkey_payload func (MQT s) = cat [lit [Byte 6], str_id s]"
| "mkey_payload func (MEI v) = lit (Byte 7 # int64_cells v)"
| "mkey_payload func MW = lit [Byte 8]"

fun imm_payload :: "Func \<Rightarrow> Offset list \<Rightarrow> Offset \<Rightarrow> Imm \<Rightarrow> enc" where
  "imm_payload func os so (BLA targets) =
     cat (lit (int32_cells (int (length targets)))
          # map (\<lambda>t. lit (branch_cells os so t)) targets)"
| "imm_payload func os so (SLA targets) =
     cat (lit (int32_cells (int (length targets)))
          # concat (map (\<lambda>p. [str_id (fst p), lit (branch_cells os so (snd p))])
                        (butlast targets))
          @ [lit (int32_cells (- 1)), lit (branch_cells os so (snd (last targets)))])"
| "imm_payload func os so (ILA iterTab) =
     cat (lit (int32_cells (int (length iterTab)))
          # concat (map (\<lambda>kv. [lit (int32_cells (fst kv)), lit (int32_cells (snd kv))])
                        iterTab))"
| "imm_payload func os so (IVA n) = lit (iva_cells n)"
| "imm_payload func os so (I64A v) = lit (int64_cells v)"
| "imm_payload func os so (LA l) = lit (local_cells func l)"
| "imm_payload func os so (IA n) = lit (iva_cells n)"
| "imm_payload func os so (CAR n) = lit (iva_cells n)"
| "imm_payload func os so (CAW n) = lit (iva_cells n)"
| "imm_payload func os so (DA d) = lit (int64_cells (uint d))"
| "imm_payload func os so (SA s) = str_id s"
| "imm_payload func os so (RATA blob) = lit (map Byte blob)"
| "imm_payload func os so (AA a) = arr_id a"
| "imm_payload func os so (OA b) = lit [Byte b]"
| "imm_payload func os so (BA target) = lit (branch_cells os so target)"
| "imm_payload func os so (VSA keys) =
     cat (lit (int32_cells (int (length keys))) # map str_id keys)"
| "imm_payload func os so (KA mkey) = mkey_payload func mkey"
| "imm_payload func os so (LAR locrange) =
     lit (local_cells func (first locrange) @ iva_cells (restCount locrange))"

definition payload :: "Func \<Rightarrow> Offset list \<Rightarrow> Offset \<Rightarrow> Imm list \<Rightarrow> enc" where
  "payload func os so is = cat (map (imm_payload func os so) is)"

text \<open>
  What the refinement proof compares: the offsets of the blocks and the two literal
  tables of a state, and \<open>encodes os f e\<close>: from a state with block offsets \<open>os\<close> the
  call \<open>f\<close>, when it returns, has appended what \<open>e\<close> gives for the literal tables, has
  left the tables as \<open>e\<close> leaves them, and has kept the block offsets.
\<close>

definition offs :: "EmitState \<Rightarrow> Offset list" where
  "offs s = map offset (blockInfo s)"

definition tabs :: "EmitState \<Rightarrow> tables" where
  "tabs s = (litstrs s, arrays s)"

definition encodes :: "Offset list \<Rightarrow> step \<Rightarrow> enc \<Rightarrow> bool" where
  "encodes os f e =
     (\<forall>x y. f x = Inr y \<longrightarrow> offs x = os \<longrightarrow>
        bc y = bc x @ fst (e (tabs x)) \<and> tabs y = snd (e (tabs x)) \<and> offs y = os)"

definition quiet :: "EmitState \<Rightarrow> EmitState \<Rightarrow> bool" where
  "quiet s s' = (bc s' = bc s \<and> tabs s' = tabs s \<and> offs s' = offs s)"

definition ex_SS :: Bytecode where
  "ex_SS = ex_inst (OtherOp 5) [SA ''b'', SA ''a'', IVA 3] POP_NOV PUSH_NOV False"


section \<open>Sequencing and what it keeps\<close>

lemma and_then_simps [simp]:
  "and_then (Inr x) f = f x"
  "and_then (Inl e) f = Inl e"
  by (simp_all add: and_then_def)

lemma and_then_Inr_iff:
  "and_then m f = Inr y \<longleftrightarrow> (\<exists>x. m = Inr x \<and> f x = Inr y)"
  by (cases m) simp_all

lemma seq_append: "seq (fs @ gs) s = and_then (seq fs s) (seq gs)"
  by (induction fs arbitrary: s) (simp_all add: and_then_def split: sum.splits)

lemma seq_Cons_Inr_iff:
  "seq (f # fs) s = Inr s' \<longleftrightarrow> (\<exists>s1. f s = Inr s1 \<and> seq fs s1 = Inr s')"
  by (simp add: and_then_Inr_iff)

lemma seq_append_Inr_iff:
  "seq (fs @ gs) s = Inr s' \<longleftrightarrow> (\<exists>s1. seq fs s = Inr s1 \<and> seq gs s1 = Inr s')"
  by (simp add: seq_append and_then_Inr_iff)

lemma keepsI: "(\<And>s s'. f s = Inr s' \<Longrightarrow> R s s') \<Longrightarrow> keeps R f"
  by (simp add: keeps_def)

lemma keepsD: "keeps R f \<Longrightarrow> f s = Inr s' \<Longrightarrow> R s s'"
  by (simp add: keeps_def)

lemma preorder_relD:
  assumes "preorder_rel R"
  shows "R s s" and "R a b \<Longrightarrow> R b c \<Longrightarrow> R a c"
  using assms unfolding preorder_rel_def by blast+

lemma keeps_seq:
  assumes p: "preorder_rel R" and fs: "\<And>f. f \<in> set fs \<Longrightarrow> keeps R f"
  shows "keeps R (seq fs)"
proof (rule keepsI)
  fix s s' assume "seq fs s = Inr s'"
  then show "R s s'" using fs
  proof (induction fs arbitrary: s)
    case Nil
    then show ?case using preorder_relD(1) [OF p] by simp
  next
    case (Cons f fs)
    from Cons.prems(1) obtain s1 where 1: "f s = Inr s1" and 2: "seq fs s1 = Inr s'"
      by (auto simp: and_then_Inr_iff)
    have "R s s1" using Cons.prems(2) [of f] 1 by (simp add: keeps_def)
    moreover have "R s1 s'" using Cons.IH [OF 2] Cons.prems(2) by simp
    ultimately show ?case using preorder_relD(2) [OF p] by blast
  qed
qed

lemma keeps_when_do:
  assumes "preorder_rel R" and "c \<Longrightarrow> keeps R f"
  shows "keeps R (when_do c f)"
  using assms preorder_relD(1) [OF assms(1)]
  by (auto simp: keeps_def when_do_def)

lemma keeps_pure_step:
  assumes "\<And>s. R s (f s)"
  shows "keeps R (pure_step f)"
  using assms by (auto simp: keeps_def pure_step_def)

lemma keeps_Inr:
  assumes "preorder_rel R"
  shows "keeps R Inr"
  using preorder_relD(1) [OF assms] by (auto simp: keeps_def)

lemma keeps_comp:
  assumes "preorder_rel R" and "keeps R f" and "\<And>x. keeps R (g x)"
  shows "keeps R (\<lambda>s. and_then (f s) (\<lambda>s1. g s1 s1))"
  using assms preorder_relD(2) [OF assms(1)]
  by (auto simp: keeps_def and_then_Inr_iff) blast

lemma imm_prims_keepD:
  assumes "imm_prims_keep R"
  shows "preorder_rel R"
    and "keeps R (pure_step (emitCells cs))"
    and "keeps R (pure_step (emit_litstr x))"
    and "keeps R (pure_step (emit_array a))"
    and "keeps R (set_expected_depth i)"
    and "keeps R (pure_step (add_fixup i fx))"
  using assms unfolding imm_prims_keep_def by simp_all

lemma ikeeps_refl_R: "imm_prims_keep R \<Longrightarrow> R s s"
  using imm_prims_keepD(1) preorder_relD(1) by blast

lemma ikeeps_trans_R: "imm_prims_keep R \<Longrightarrow> R a b \<Longrightarrow> R b c \<Longrightarrow> R a c"
  using imm_prims_keepD(1) preorder_relD(2) by blast

lemma keeps_pureD: "keeps R (pure_step f) \<Longrightarrow> R s (f s)"
  by (simp add: keeps_def pure_step_def)

lemma ikeeps_emitInt32: "imm_prims_keep R \<Longrightarrow> keeps R (pure_step (emitInt32 v))"
  unfolding emitInt32_def by (rule imm_prims_keepD(2))

lemma ikeeps_emitInt64: "imm_prims_keep R \<Longrightarrow> keeps R (pure_step (emitInt64 v))"
  unfolding emitInt64_def by (rule imm_prims_keepD(2))

lemma ikeeps_emitDouble: "imm_prims_keep R \<Longrightarrow> keeps R (pure_step (emitDouble v))"
  unfolding emitDouble_def by (rule imm_prims_keepD(2))

lemma ikeeps_emitByte: "imm_prims_keep R \<Longrightarrow> keeps R (pure_step (emitByte v))"
  unfolding emitByte_def by (rule imm_prims_keepD(2))

lemma ikeeps_emitOp: "imm_prims_keep R \<Longrightarrow> keeps R (pure_step (emitOp v))"
  unfolding emitOp_def by (rule imm_prims_keepD(2))

lemma ikeeps_encodeRAT: "imm_prims_keep R \<Longrightarrow> keeps R (pure_step (encodeRAT v))"
  unfolding encodeRAT_def by (rule imm_prims_keepD(2))

lemma ikeeps_emitIVA: "imm_prims_keep R \<Longrightarrow> keeps R (pure_step (emitIVA n))"
  unfolding emitIVA_def by (simp add: ikeeps_emitByte ikeeps_emitInt32)

lemma ikeeps_pure_comp:
  assumes "imm_prims_keep R" "keeps R (pure_step f)" "keeps R (pure_step g)"
  shows "keeps R (pure_step (\<lambda>s. f (g s)))"
proof (rule keeps_pure_step)
  fix s
  have "R s (g s)" using keeps_pureD [OF assms(3)] .
  moreover have "R (g s) (f (g s))" using keeps_pureD [OF assms(2)] .
  ultimately show "R s (f (g s))" using ikeeps_trans_R [OF assms(1)] by blast
qed

lemma ikeeps_ret_assert: "imm_prims_keep R \<Longrightarrow> keeps R ret_assert"
  by (auto simp: keeps_def ret_assert_def ikeeps_refl_R split: if_splits)

lemma ikeeps_emit_branch:
  assumes p: "imm_prims_keep R"
  shows "keeps R (emit_branch so i)"
proof (rule keepsI)
  fix s s' assume a: "emit_branch so i s = Inr s'"
  then obtain s1 where 1: "set_expected_depth i s = Inr s1"
    and 2: "s' = (if offset (blockInfo s1 ! i) \<noteq> kInvalidOffset
                  then emitInt32 (offset (blockInfo s1 ! i) - so) s1
                  else emitInt32 0 (add_fixup i \<lparr>instrOff = so, jmpImmedOff = bcPos s1\<rparr> s1))"
    by (auto simp: emit_branch_def and_then_Inr_iff split: if_splits)
  have r1: "R s s1" using keepsD [OF imm_prims_keepD(5) [OF p] 1] .
  have r2: "R s1 s'"
  proof (cases "offset (blockInfo s1 ! i) \<noteq> kInvalidOffset")
    case True
    then show ?thesis using 2 keeps_pureD [OF ikeeps_emitInt32 [OF p]] by simp
  next
    case False
    have "R s1 (add_fixup i \<lparr>instrOff = so, jmpImmedOff = bcPos s1\<rparr> s1)"
      using keeps_pureD [OF imm_prims_keepD(6) [OF p]] .
    moreover have "R (add_fixup i \<lparr>instrOff = so, jmpImmedOff = bcPos s1\<rparr> s1) s'"
      using False 2 keeps_pureD [OF ikeeps_emitInt32 [OF p]] by simp
    ultimately show ?thesis using ikeeps_trans_R [OF p] by blast
  qed
  show "R s s'" using r1 r2 ikeeps_trans_R [OF p] by blast
qed

lemma ikeeps_seq': "imm_prims_keep R \<Longrightarrow> (\<And>f. f \<in> set fs \<Longrightarrow> keeps R f) \<Longrightarrow> keeps R (seq fs)"
  using keeps_seq imm_prims_keepD(1) by blast

lemma ikeeps_emit_vsa: "imm_prims_keep R \<Longrightarrow> keeps R (emit_vsa ks)"
  unfolding emit_vsa_def
  by (rule ikeeps_seq') (auto simp: ikeeps_emitInt32 imm_prims_keepD(3))

lemma ikeeps_emit_switch: "imm_prims_keep R \<Longrightarrow> keeps R (emit_switch so ts)"
  unfolding emit_switch_def
  by (rule ikeeps_seq') (auto simp: ikeeps_emitInt32 ikeeps_emit_branch)

lemma ikeeps_emit_sswitch:
  assumes p: "imm_prims_keep R"
  shows "keeps R (emit_sswitch so ts)"
proof (rule keepsI)
  fix s s' assume a: "emit_sswitch so ts s = Inr s'"
  let ?fs = "pure_step (emitInt32 (int (length ts)))
             # concat (map (\<lambda>t. [pure_step (emit_litstr (fst t)), emit_branch so (snd t)]) (butlast ts))
             @ [pure_step (emitInt32 (- 1)), emit_branch so (snd (last ts))]"
  from a have "seq ?fs s = Inr s'"
    by (simp add: emit_sswitch_def split: if_splits)
  moreover have "keeps R (seq ?fs)"
    by (rule ikeeps_seq' [OF p]) (auto simp: ikeeps_emitInt32 [OF p] ikeeps_emit_branch [OF p] imm_prims_keepD(3) [OF p])
  ultimately show "R s s'" by (rule keepsD [rotated])
qed

lemma ikeeps_emit_itertab: "imm_prims_keep R \<Longrightarrow> keeps R (emit_itertab tab)"
  unfolding emit_itertab_def
  by (rule ikeeps_seq') (auto simp: ikeeps_emitInt32)

lemma ikeeps_encode_member_key:
  assumes p: "imm_prims_keep R"
  shows "keeps R (pure_step (encode_member_key k))"
proof -
  have b: "keeps R (pure_step (emitByte v))" for v by (rule ikeeps_emitByte [OF p])
  have i: "keeps R (pure_step (emitIVA v))" for v by (rule ikeeps_emitIVA [OF p])
  have l: "keeps R (pure_step (emit_litstr v))" for v by (rule imm_prims_keepD(3) [OF p])
  have e: "keeps R (pure_step (emitInt64 v))" for v by (rule ikeeps_emitInt64 [OF p])
  have eq: "encode_member_key k = (case k of
       MEC n \<Rightarrow> (\<lambda>s. emitIVA n (emitByte 0 s)) | MPC n \<Rightarrow> (\<lambda>s. emitIVA n (emitByte 1 s))
     | MEL n \<Rightarrow> (\<lambda>s. emitIVA n (emitByte 2 s)) | MPL n \<Rightarrow> (\<lambda>s. emitIVA n (emitByte 3 s))
     | MET x \<Rightarrow> (\<lambda>s. emit_litstr x (emitByte 4 s)) | MPT x \<Rightarrow> (\<lambda>s. emit_litstr x (emitByte 5 s))
     | MQT x \<Rightarrow> (\<lambda>s. emit_litstr x (emitByte 6 s)) | MEI v \<Rightarrow> (\<lambda>s. emitInt64 v (emitByte 7 s))
     | MW \<Rightarrow> emitByte 8)"
    by (cases k) (auto simp: fun_eq_iff)
  show ?thesis
    unfolding eq
    by (cases k) (simp_all add: ikeeps_pure_comp [OF p] b i l e)
qed

lemma keeps_catch:
  assumes "\<And>x. keeps R (pure_step (g x))"
  shows "keeps R (\<lambda>st. and_then m (\<lambda>x. Inr (g x st)))"
  using assms by (cases m) (auto simp: keeps_def pure_step_def)

lemma ikeeps_emit_lar:
  assumes p: "imm_prims_keep R"
  shows "keeps R (emit_lar func lr)"
proof (rule keepsI)
  fix s s' assume a: "emit_lar func lr s = Inr s'"
  then obtain f where "s' = emitIVA (restCount lr) (emitIVA f s)"
    by (auto simp: emit_lar_def and_then_Inr_iff split: if_splits)
  then show "R s s'"
    using keeps_pureD [OF ikeeps_pure_comp [OF p ikeeps_emitIVA [OF p] ikeeps_emitIVA [OF p]]] by simp
qed

lemma ikeeps_emit_imm:
  assumes p: "imm_prims_keep R"
  shows "keeps R (emit_imm func so imm)"
proof (cases imm)
  case (LA l)
  then show ?thesis by (simp add: keeps_catch ikeeps_emitIVA [OF p])
next
  case (KA k)
  then show ?thesis by (simp add: keeps_catch ikeeps_encode_member_key [OF p])
qed (simp_all add: ikeeps_emit_switch [OF p] ikeeps_emit_sswitch [OF p] ikeeps_emit_itertab [OF p]
      ikeeps_emitIVA [OF p] ikeeps_emitInt64 [OF p] ikeeps_emitDouble [OF p] imm_prims_keepD(3,4) [OF p]
      ikeeps_encodeRAT [OF p] ikeeps_emitByte [OF p] ikeeps_emit_branch [OF p] ikeeps_emit_vsa [OF p]
      ikeeps_emit_lar [OF p])

lemma inst_prims_keep_imm: "inst_prims_keep R \<Longrightarrow> imm_prims_keep R"
  by (simp add: inst_prims_keep_def)

lemma inst_prims_keepD:
  assumes "inst_prims_keep R"
  shows "preorder_rel R"
    and "keeps R (pure_step (emitCells cs))"
    and "keeps R (pure_step (emit_litstr x))"
    and "keeps R (pure_step (emit_array a))"
    and "keeps R (set_expected_depth i)"
    and "keeps R (pure_step (add_fixup i fx))"
    and "keeps R (pop n)"
    and "keeps R (do_push u)"
    and "keeps R (pure_step (fpush so))"
    and "keeps R (end_fpi off)"
    and "keeps R (defcls inst so)"
    and "keeps R (defclsnop inst so)"
    and "keeps R (pure_step reset_depth)"
    and "keeps R (pure_step set_containsCalls)"
    and "keeps R (pure_step (set_lastOff off))"
    and "keeps R (emit_srcloc func inst so)"
  using assms imm_prims_keepD [of R] unfolding inst_prims_keep_def by simp_all

lemma keeps_refl_R: "inst_prims_keep R \<Longrightarrow> R s s"
  using ikeeps_refl_R inst_prims_keep_imm by blast

lemma keeps_trans_R: "inst_prims_keep R \<Longrightarrow> R a b \<Longrightarrow> R b c \<Longrightarrow> R a c"
  using ikeeps_trans_R inst_prims_keep_imm by blast

lemma keeps_emitInt32: "inst_prims_keep R \<Longrightarrow> keeps R (pure_step (emitInt32 v))"
  using ikeeps_emitInt32 inst_prims_keep_imm by blast

lemma keeps_emitInt64: "inst_prims_keep R \<Longrightarrow> keeps R (pure_step (emitInt64 v))"
  using ikeeps_emitInt64 inst_prims_keep_imm by blast

lemma keeps_emitDouble: "inst_prims_keep R \<Longrightarrow> keeps R (pure_step (emitDouble v))"
  using ikeeps_emitDouble inst_prims_keep_imm by blast

lemma keeps_emitByte: "inst_prims_keep R \<Longrightarrow> keeps R (pure_step (emitByte v))"
  using ikeeps_emitByte inst_prims_keep_imm by blast

lemma keeps_emitOp: "inst_prims_keep R \<Longrightarrow> keeps R (pure_step (emitOp v))"
  using ikeeps_emitOp inst_prims_keep_imm by blast

lemma keeps_encodeRAT: "inst_prims_keep R \<Longrightarrow> keeps R (pure_step (encodeRAT v))"
  using ikeeps_encodeRAT inst_prims_keep_imm by blast

lemma keeps_emitIVA: "inst_prims_keep R \<Longrightarrow> keeps R (pure_step (emitIVA n))"
  using ikeeps_emitIVA inst_prims_keep_imm by blast

lemma keeps_pure_comp:
  assumes "inst_prims_keep R" "keeps R (pure_step f)" "keeps R (pure_step g)"
  shows "keeps R (pure_step (\<lambda>s. f (g s)))"
  using ikeeps_pure_comp [OF inst_prims_keep_imm [OF assms(1)]] assms(2-) by blast

lemma keeps_ret_assert: "inst_prims_keep R \<Longrightarrow> keeps R ret_assert"
  using ikeeps_ret_assert inst_prims_keep_imm by blast

lemma keeps_emit_branch:
  assumes p: "inst_prims_keep R"
  shows "keeps R (emit_branch so i)"
  using ikeeps_emit_branch [OF inst_prims_keep_imm [OF p]] .

lemma keeps_seq': "inst_prims_keep R \<Longrightarrow> (\<And>f. f \<in> set fs \<Longrightarrow> keeps R f) \<Longrightarrow> keeps R (seq fs)"
  using ikeeps_seq' inst_prims_keep_imm by blast

lemma keeps_emit_vsa: "inst_prims_keep R \<Longrightarrow> keeps R (emit_vsa ks)"
  using ikeeps_emit_vsa inst_prims_keep_imm by blast

lemma keeps_emit_switch: "inst_prims_keep R \<Longrightarrow> keeps R (emit_switch so ts)"
  using ikeeps_emit_switch inst_prims_keep_imm by blast

lemma keeps_emit_sswitch:
  assumes p: "inst_prims_keep R"
  shows "keeps R (emit_sswitch so ts)"
  using ikeeps_emit_sswitch [OF inst_prims_keep_imm [OF p]] .

lemma keeps_emit_itertab: "inst_prims_keep R \<Longrightarrow> keeps R (emit_itertab tab)"
  using ikeeps_emit_itertab inst_prims_keep_imm by blast

lemma keeps_encode_member_key:
  assumes p: "inst_prims_keep R"
  shows "keeps R (pure_step (encode_member_key k))"
  using ikeeps_encode_member_key [OF inst_prims_keep_imm [OF p]] .

lemma keeps_emit_lar:
  assumes p: "inst_prims_keep R"
  shows "keeps R (emit_lar func lr)"
  using ikeeps_emit_lar [OF inst_prims_keep_imm [OF p]] .

lemma keeps_emit_imm:
  assumes p: "inst_prims_keep R"
  shows "keeps R (emit_imm func so imm)"
  using ikeeps_emit_imm [OF inst_prims_keep_imm [OF p]] .

lemma keeps_pop_arg: "inst_prims_keep R \<Longrightarrow> keeps R (pop_arg n inst)"
  using inst_prims_keepD(7) [of R]
  by (auto simp: keeps_def pop_arg_def and_then_Inr_iff)

lemma keeps_do_pop:
  assumes p: "inst_prims_keep R"
  shows "keeps R (do_pop i inst)"
proof (cases i)
  case POP_SMANY
  then show ?thesis using inst_prims_keepD(7) [OF p]
    by (auto simp: keeps_def and_then_Inr_iff)
qed (auto intro!: keeps_seq' [OF p] simp: keeps_Inr [OF inst_prims_keepD(1) [OF p]] inst_prims_keepD(7) [OF p] keeps_pop_arg [OF p])

lemma keeps_when: "inst_prims_keep R \<Longrightarrow> (c \<Longrightarrow> keeps R f) \<Longrightarrow> keeps R (when_do c f)"
  using keeps_when_do inst_prims_keepD(1) by blast

lemma keeps_emit_opcode:
  assumes p: "inst_prims_keep R"
  shows "keeps R (emit_opcode func so inst)"
  unfolding emit_opcode_def
  by (rule keeps_seq' [OF p])
     (auto intro!: keeps_when [OF p] simp: inst_prims_keepD [OF p] keeps_ret_assert [OF p]
        keeps_emitOp [OF p] keeps_do_pop [OF p] keeps_emit_imm [OF p] fcall_def)

lemma keeps_emit_inst:
  assumes p: "inst_prims_keep R"
  shows "keeps R (emit_inst func inst)"
proof (rule keepsI)
  fix s s' assume a: "emit_inst func inst s = Inr s'"
  have 1: "R s (set_lastOff (bcPos s) s)"
    using keeps_pureD [OF inst_prims_keepD(15) [OF p]] .
  have 2: "R (set_lastOff (bcPos s) s) s'"
    using a keepsD [OF keeps_emit_opcode [OF p]] keeps_refl_R [OF p]
    by (auto simp: emit_inst_def Let_def split: if_splits)
  show "R s s'" using 1 2 keeps_trans_R [OF p] by blast
qed

lemma prims_keep_inst: "prims_keep R \<Longrightarrow> inst_prims_keep R"
  by (simp add: prims_keep_def)

lemma prims_keepD:
  assumes "prims_keep R"
  shows "preorder_rel R"
    and "keeps R (pure_step (emitCells cs))"
    and "keeps R (pure_step (emit_litstr x))"
    and "keeps R (pure_step (emit_array a))"
    and "keeps R (set_expected_depth i)"
    and "keeps R (pure_step (add_fixup i fx))"
    and "keeps R (pop n)"
    and "keeps R (do_push u)"
    and "keeps R (pure_step (fpush so))"
    and "keeps R (end_fpi off)"
    and "keeps R (defcls inst so)"
    and "keeps R (defclsnop inst so)"
    and "keeps R (pure_step reset_depth)"
    and "keeps R (pure_step set_containsCalls)"
    and "keeps R (pure_step (set_lastOff off))"
    and "keeps R (emit_srcloc func inst so)"
    and "keeps R (pure_step (set_offset i off))"
    and "keeps R (pure_step (set_past i off))"
    and "keeps R (pure_step (set_regionsToPop i r))"
    and "keeps R (emitInt32_at v pos)"
    and "keeps R (enter_depths i)"
  using assms inst_prims_keepD [of R] unfolding prims_keep_def by simp_all

lemma keeps_refl_P: "prims_keep R \<Longrightarrow> R s s"
  using prims_keepD(1) preorder_relD(1) by blast

lemma keeps_trans_P: "prims_keep R \<Longrightarrow> R a b \<Longrightarrow> R b c \<Longrightarrow> R a c"
  using prims_keepD(1) preorder_relD(2) by blast

lemma keeps_seq_P: "prims_keep R \<Longrightarrow> (\<And>f. f \<in> set fs \<Longrightarrow> keeps R f) \<Longrightarrow> keeps R (seq fs)"
  using keeps_seq prims_keepD(1) by blast

lemma keeps_end_fpi_while:
  assumes p: "prims_keep R"
  shows "keeps R (end_fpi_while e)"
proof (rule keepsI)
  fix s s' assume "end_fpi_while e s = Inr s'"
  then show "R s s'"
  proof (induction e s rule: end_fpi_while.induct)
    case (1 e st)
    show ?case
    proof (cases "e < length (fpiStack st)")
      case True
      with "1.prems" obtain s1 where a: "end_fpi (lastOff st) st = Inr s1"
        and b: "end_fpi_while e s1 = Inr s'"
        by (subst (asm) end_fpi_while.simps) (auto split: sum.splits)
      have "R st s1" using keepsD [OF prims_keepD(10) [OF p] a] .
      moreover have "R s1 s'" using "1.IH" [OF True a b] .
      ultimately show ?thesis using keeps_trans_P [OF p] by blast
    next
      case False
      with "1.prems" have "s' = st" by (subst (asm) end_fpi_while.simps) simp
      then show ?thesis using keeps_refl_P [OF p] by simp
    qed
  qed
qed

lemma keeps_patch_jumps: "prims_keep R \<Longrightarrow> keeps R (patch_jumps off fxs)"
  unfolding patch_jumps_def
  by (rule keeps_seq_P) (auto simp: prims_keepD(20))

lemma keeps_close_fpis: "prims_keep R \<Longrightarrow> keeps R (close_fpis i)"
  using keeps_end_fpi_while [of R]
  by (auto simp: keeps_def close_fpis_def split: option.splits if_splits)

lemma keeps_begin_block:
  assumes p: "prims_keep R"
  shows "keeps R (begin_block b)"
proof (rule keepsI)
  fix s s' assume a: "begin_block b s = Inr s'"
  let ?fs = "[pure_step (set_offset (id_b b) (bcPos s)),
             patch_jumps (bcPos s) (forwardJumps (blockInfo s ! id_b b)),
             enter_depths (id_b b),
             close_fpis (id_b b)]"
  from a have "seq ?fs s = Inr s'"
    by (simp add: begin_block_def split: if_splits)
  moreover have "keeps R (seq ?fs)"
    by (rule keeps_seq_P [OF p])
       (auto simp: prims_keepD [OF p] keeps_patch_jumps [OF p] keeps_close_fpis [OF p])
  ultimately show "R s s'" by (rule keepsD [rotated])
qed

lemma keeps_pop_regions: "prims_keep R \<Longrightarrow> keeps R (pop_regions func b)"
  using prims_keepD(19) [of R]
  by (auto simp: keeps_def pop_regions_def Let_def and_then_Inr_iff pure_step_def split: if_splits)

lemma keeps_finish_block:
  assumes p: "prims_keep R"
  shows "keeps R (finish_block func b nxt)"
proof (rule keepsI)
  fix s s' assume a: "finish_block func b nxt s = Inr s'"
  let ?jmp = "emit_inst func (if fallthroughNS b then bc_JmpNS (fallthrough b)
                                     else bc_Jmp (fallthrough b))"
  let ?c = "(case nxt of None \<Rightarrow> True | Some n \<Rightarrow> id_b n \<noteq> fallthrough b)"
  have k1: "keeps R (pure_step (set_past (id_b b) (bcPos s)))" by (rule prims_keepD(18) [OF p])
  have k2: "keeps R (set_expected_depth (fallthrough b))" by (rule prims_keepD(5) [OF p])
  have k3: "keeps R ?jmp" by (rule keeps_emit_inst [OF prims_keep_inst [OF p]])
  have k4: "keeps R (pop_regions func b)" by (rule keeps_pop_regions [OF p])
  consider (c_none) "fallthrough b = NoBlockId"
    | (c_next) "fallthrough b \<noteq> NoBlockId" "\<not> ?c"
    | (c_jump) "fallthrough b \<noteq> NoBlockId" "?c"
    by blast
  then show "R s s'"
  proof cases
    case c_none
    with a have "seq [pure_step (set_past (id_b b) (bcPos s))] s = Inr s'"
      by (simp add: finish_block_def)
    moreover have "keeps R (seq [pure_step (set_past (id_b b) (bcPos s))])"
      by (rule keeps_seq_P [OF p]) (use k1 in simp)
    ultimately show ?thesis by (rule keepsD [rotated])
  next
    case c_next
    with a have "seq [pure_step (set_past (id_b b) (bcPos s)), set_expected_depth (fallthrough b)] s = Inr s'"
      by (simp add: finish_block_def)
    moreover have "keeps R (seq [pure_step (set_past (id_b b) (bcPos s)), set_expected_depth (fallthrough b)])"
      by (rule keeps_seq_P [OF p]) (use k1 k2 in auto)
    ultimately show ?thesis by (rule keepsD [rotated])
  next
    case c_jump
    with a have "seq [pure_step (set_past (id_b b) (bcPos s)), set_expected_depth (fallthrough b),
                      ?jmp, pop_regions func b] s = Inr s'"
      by (simp add: finish_block_def)
    moreover have "keeps R (seq [pure_step (set_past (id_b b) (bcPos s)), set_expected_depth (fallthrough b),
                      ?jmp, pop_regions func b])"
      by (rule keeps_seq_P [OF p]) (use k1 k2 k3 k4 in auto)
    ultimately show ?thesis by (rule keepsD [rotated])
  qed
qed

lemma keeps_emit_insts: "inst_prims_keep R \<Longrightarrow> keeps R (seq (map (emit_inst func) is))"
  by (rule keeps_seq') (auto simp: keeps_emit_inst)

lemma keeps_emit_block: "prims_keep R \<Longrightarrow> keeps R (emit_block func b nxt)"
  unfolding emit_block_def
  by (rule keeps_seq_P) (auto simp: keeps_begin_block keeps_emit_insts prims_keep_inst keeps_finish_block)

lemma keeps_emit_blocks:
  assumes p: "prims_keep R"
  shows "keeps R (emit_blocks func bs)"
proof (rule keepsI)
  fix s s' assume "emit_blocks func bs s = Inr s'"
  then show "R s s'"
  proof (induction bs arbitrary: s)
    case Nil
    then show ?case using keeps_refl_P [OF p] by simp
  next
    case (Cons b bs)
    then obtain s1 where 1: "emit_block func b (case bs of [] \<Rightarrow> None | n # _ \<Rightarrow> Some n) s = Inr s1"
      and 2: "emit_blocks func bs s1 = Inr s'"
      by (auto simp: and_then_Inr_iff)
    show ?case
      using keepsD [OF keeps_emit_block [OF p] 1] Cons.IH [OF 2] keeps_trans_P [OF p] by blast
  qed
qed

lemma keeps_act: 
  assumes p: "prims_keep R"
  shows "keeps R (act func a)"
  by (cases a)
     (simp_all add: keeps_emit_block [OF p] keeps_begin_block [OF p] keeps_finish_block [OF p]
        keeps_emit_inst [OF prims_keep_inst [OF p]] keeps_emit_opcode [OF prims_keep_inst [OF p]] keeps_emit_imm [OF prims_keep_inst [OF p]]
        keeps_emit_branch [OF prims_keep_inst [OF p]] keeps_do_pop [OF prims_keep_inst [OF p]] keeps_ret_assert [OF prims_keep_inst [OF p]]
        keeps_end_fpi_while [OF p] keeps_pop_regions [OF p] prims_keepD [OF p])

lemma keeps_run: "prims_keep R \<Longrightarrow> keeps R (run func acts)"
  unfolding run_def
  by (rule keeps_seq_P) (auto simp: keeps_act)

section \<open>What the elementary state changes keep\<close>

lemmas prim_defs = pure_step_def emitCells_def emit_litstr_def emit_array_def emitInt32_def
  set_expected_depth_def add_fixup_def update_info_def pop_def push_def fpush_def end_fpi_def
  defcls_def defclsnop_def reset_depth_def set_containsCalls_def set_lastOff_def emit_srcloc_def
  set_offset_def set_past_def set_regionsToPop_def emitInt32_at_def enter_depths_def intern_def

lemma nth_list_update_gen:
  "xs[i := x] ! j = (if i = j \<and> i < length xs then x else xs ! j)"
  by (cases "i < length xs") (auto simp: nth_list_update list_update_beyond)

lemma preorder_defcls_kept: "preorder_rel defcls_kept"
  by (auto simp: preorder_rel_def defcls_kept_def)

lemma prims_keep_defcls_kept: "prims_keep defcls_kept"
  unfolding prims_keep_def inst_prims_keep_def imm_prims_keep_def
proof (intro conjI allI)
  show "preorder_rel defcls_kept" by (rule preorder_defcls_kept)
  show "keeps defcls_kept (do_push u)" for u
    by (cases u) (auto simp: keeps_def defcls_kept_def prim_defs Let_def)
  show "keeps defcls_kept (defcls inst so)" for inst so
    by (auto simp: keeps_def defcls_kept_def prim_defs and_then_Inr_iff nth_list_update_gen split: if_splits)
  show "keeps defcls_kept (defclsnop inst so)" for inst so
    by (auto simp: keeps_def defcls_kept_def prim_defs and_then_Inr_iff nth_list_update_gen split: if_splits)
qed (auto simp: keeps_def defcls_kept_def prim_defs Let_def and_then_Inr_iff split: if_splits prod.splits)

lemma preorder_expected_kept: "preorder_rel expected_kept"
  by (auto simp: preorder_rel_def expected_kept_def)

lemma prims_keep_expected_kept: "prims_keep expected_kept"
  unfolding prims_keep_def inst_prims_keep_def imm_prims_keep_def
proof (intro conjI allI)
  show "preorder_rel expected_kept" by (rule preorder_expected_kept)
  show "keeps expected_kept (do_push u)" for u
    by (cases u) (auto simp: keeps_def expected_kept_def prim_defs Let_def)
  show "keeps expected_kept (set_expected_depth i)" for i
    by (auto simp: keeps_def expected_kept_def prim_defs Let_def nth_list_update_gen split: if_splits)
  show "keeps expected_kept (enter_depths i)" for i
    by (auto simp: keeps_def expected_kept_def prim_defs Let_def nth_list_update_gen split: if_splits option.splits)
qed (auto simp: keeps_def expected_kept_def prim_defs Let_def and_then_Inr_iff nth_list_update_gen
       split: if_splits prod.splits)

lemma preorder_depth_rel: "preorder_rel depth_rel"
  by (auto simp: preorder_rel_def depth_rel_def)

lemma depth_inv_update_info:
  assumes "depth_inv s"
    and "\<And>d. expectedStackDepth (f (blockInfo s ! i)) = Some d \<Longrightarrow> i < length (blockInfo s) \<Longrightarrow> 0 \<le> d"
  shows "depth_inv (update_info i f s)"
  unfolding depth_inv_def
proof (intro conjI ballI allI impI)
  show "0 \<le> currentStackDepth (update_info i f s)"
    using assms(1) by (simp add: depth_inv_def update_info_def)
next
  fix info d
  assume a: "info \<in> set (blockInfo (update_info i f s))" and b: "expectedStackDepth info = Some d"
  from a obtain j where j: "j < length (blockInfo s)"
    and e: "info = (blockInfo s)[i := f (blockInfo s ! i)] ! j"
    by (auto simp: update_info_def in_set_conv_nth)
  show "0 \<le> d"
  proof (cases "i = j")
    case True
    with e j have "info = f (blockInfo s ! i)" by simp
    with b assms(2) True j show ?thesis by simp
  next
    case False
    with e have "info = blockInfo s ! j" by simp
    with j have "info \<in> set (blockInfo s)" by simp
    with b assms(1) show ?thesis by (auto simp: depth_inv_def)
  qed
qed

lemma depth_inv_nth:
  "depth_inv s \<Longrightarrow> i < length (blockInfo s) \<Longrightarrow> expectedStackDepth (blockInfo s ! i) = Some d \<Longrightarrow> 0 \<le> d"
  by (auto simp: depth_inv_def)

lemma prims_keep_depth_rel: "prims_keep depth_rel"
  unfolding prims_keep_def inst_prims_keep_def imm_prims_keep_def
proof (intro conjI allI)
  show "preorder_rel depth_rel" by (rule preorder_depth_rel)
  show "keeps depth_rel (do_push u)" for u
    by (cases u) (auto simp: keeps_def depth_rel_def depth_inv_def prim_defs Let_def)
  show "keeps depth_rel (set_expected_depth i)" for i
  proof (rule keepsI)
    fix s s' assume a: "set_expected_depth i s = Inr s'"
    then have s': "s' = update_info i (\<lambda>info. info\<lparr>expectedStackDepth := Some (currentStackDepth s),
                                   expectedFPIDepth := Some (length (fpiStack s))\<rparr>) s"
      by (auto simp: set_expected_depth_def Let_def split: if_splits)
    show "depth_rel s s'"
      unfolding depth_rel_def s'
    proof
      assume d: "depth_inv s"
      show "depth_inv (update_info i (\<lambda>info. info\<lparr>expectedStackDepth := Some (currentStackDepth s),
                                   expectedFPIDepth := Some (length (fpiStack s))\<rparr>) s)"
        by (rule depth_inv_update_info [OF d]) (use d in \<open>simp add: depth_inv_def\<close>)
    qed
  qed
  show "keeps depth_rel (pure_step (add_fixup i fx))" for i fx
    by (auto simp: keeps_def depth_rel_def pure_step_def add_fixup_def
          intro!: depth_inv_update_info dest: depth_inv_nth)
  show "keeps depth_rel (pure_step (set_offset i off))" for i off
    by (auto simp: keeps_def depth_rel_def pure_step_def set_offset_def
          intro!: depth_inv_update_info dest: depth_inv_nth)
  show "keeps depth_rel (pure_step (set_past i off))" for i off
    by (auto simp: keeps_def depth_rel_def pure_step_def set_past_def
          intro!: depth_inv_update_info dest: depth_inv_nth)
  show "keeps depth_rel (pure_step (set_regionsToPop i off))" for i off
    by (auto simp: keeps_def depth_rel_def pure_step_def set_regionsToPop_def
          intro!: depth_inv_update_info dest: depth_inv_nth)
  show "keeps depth_rel (enter_depths i)" for i
  proof (rule keepsI)
    fix s s' assume a: "enter_depths i s = Inr s'"
    let ?esd = "case expectedStackDepth (blockInfo s ! i) of None \<Rightarrow> 0 | Some d \<Rightarrow> d"
    let ?efd = "case expectedFPIDepth (blockInfo s ! i) of None \<Rightarrow> 0 | Some d \<Rightarrow> d"
    from a have i: "i < length (blockInfo s)"
      and s': "s' = (update_info i (\<lambda>info. info\<lparr>expectedStackDepth := Some ?esd,
                 expectedFPIDepth := Some ?efd\<rparr>) s)\<lparr>currentStackDepth := ?esd\<rparr>"
      by (auto simp: enter_depths_def Let_def split: if_splits)
    show "depth_rel s s'"
      unfolding depth_rel_def
    proof
      assume d: "depth_inv s"
      have e: "0 \<le> ?esd" using depth_inv_nth [OF d i] by (auto split: option.splits)
      have "depth_inv (update_info i (\<lambda>info. info\<lparr>expectedStackDepth := Some ?esd,
                 expectedFPIDepth := Some ?efd\<rparr>) s)"
        by (rule depth_inv_update_info [OF d]) (use e in simp)
      then show "depth_inv s'"
        using e unfolding s' by (simp add: depth_inv_def)
    qed
  qed
qed (auto simp: keeps_def depth_rel_def depth_inv_def prim_defs Let_def and_then_Inr_iff
       split: if_splits prod.splits)


lemma do_push_bc: "do_push u s = Inr s' \<Longrightarrow> bc s' = bc s"
  by (cases u) (auto simp: pure_step_def push_def Let_def)



lemma seq_bc_same:
  assumes "\<And>f s s'. f \<in> set fs \<Longrightarrow> f s = Inr s' \<Longrightarrow> bc s' = bc s"
    and "seq fs s = Inr s'"
  shows "bc s' = bc s"
proof -
  have "preorder_rel bc_same" by (auto simp: preorder_rel_def bc_same_def)
  then have "keeps bc_same (seq fs)"
    by (rule keeps_seq) (use assms(1) in \<open>auto simp: keeps_def bc_same_def\<close>)
  from keepsD [OF this assms(2)] show ?thesis by (simp add: bc_same_def)
qed

lemma pop_bc: "pop n s = Inr s' \<Longrightarrow> bc s' = bc s"
  by (auto simp: pop_def split: if_splits)

lemma do_pop_bc: "do_pop i inst s = Inr s' \<Longrightarrow> bc s' = bc s"
  by (cases i) (auto simp: pop_arg_def and_then_Inr_iff dest!: pop_bc)

lemma when_do_Inr_iff: "when_do c f s = Inr s' \<longleftrightarrow> (if c then f s = Inr s' else s' = s)"
  by (auto simp: when_do_def)

lemma emit_opcode_stream:
  assumes "emit_opcode func so inst s = Inr s'"
  shows "\<exists>sa sb. bc sa = bc s @ [OpByte (op inst)]
           \<and> seq (map (emit_imm func so) (imms inst)) sa = Inr sb \<and> bc s' = bc sb"
proof -
  let ?pre = "[when_do (op inst = DefCls) (defcls inst so),
           when_do (op inst = DefClsNop) (defclsnop inst so),
           when_do (isRet (op inst)) ret_assert]"
  let ?mid = "[do_pop (inputs inst) inst, do_push (outputs inst)]"
  let ?post = "[when_do (isFPush (op inst)) (pure_step (fpush so)),
             when_do (isFCallStar (op inst)) (fcall so),
             when_do (TF inst) (pure_step reset_depth),
             when_do (op inst = FCall \<or> op inst = FCallD) (pure_step set_containsCalls),
             emit_srcloc func inst so]"
  have eq: "emit_opcode func so inst
      = seq (?pre @ [pure_step (emitOp (op inst))] @ ?mid @ map (emit_imm func so) (imms inst) @ ?post)"
    by (simp add: emit_opcode_def)
  from assms obtain s1 s2 sa sb where
    1: "seq ?pre s = Inr s1" and 2: "pure_step (emitOp (op inst)) s1 = Inr s2"
    and 3: "seq ?mid s2 = Inr sa" and 4: "seq (map (emit_imm func so) (imms inst)) sa = Inr sb"
    and 5: "seq ?post sb = Inr s'"
    unfolding eq seq_append_Inr_iff
    by (auto simp: and_then_Inr_iff)
  have b1: "bc s1 = bc s"
    by (rule seq_bc_same [OF _ 1])
       (auto simp: when_do_Inr_iff defcls_def defclsnop_def ret_assert_def and_then_Inr_iff
          split: if_splits)
  have b2: "bc s2 = bc s1 @ [OpByte (op inst)]"
    using 2 by (auto simp: pure_step_def emitOp_def emitCells_def)
  have b3: "bc sa = bc s2"
    by (rule seq_bc_same [OF _ 3]) (auto dest: do_pop_bc do_push_bc)
  have b5: "bc s' = bc sb"
    by (rule seq_bc_same [OF _ 5])
       (auto simp: when_do_Inr_iff pure_step_def fpush_def fcall_def end_fpi_def reset_depth_def
          set_containsCalls_def emit_srcloc_def and_then_Inr_iff split: if_splits)
  show ?thesis using b1 b2 b3 b5 4 by auto
qed

lemmas ex_defs = ex_state_def ex_inst_def ex_Nop_def ex_Int_def ex_JmpZ_def ex_RetC_def
  ex_PopC_def ex_DefCls_def ex_FPush_def ex_FCall_def ex_func_def

lemmas eval_defs = init_state_def BlockInfo_init_def run_def emit_inst_def emit_opcode_def
  begin_block_def finish_block_def emit_block_def patch_jumps_def close_fpis_def enter_depths_def
  when_do_def pure_step_def bcPos_def emitOp_def emitByte_def emitCells_def emitInt32_def
  emitInt64_def int32_bytes_def int64_bytes_def emitIVA_def emit_branch_def
  set_expected_depth_def update_info_def add_fixup_def pop_def push_def pop_arg_def arg_def
  fpush_def fcall_def end_fpi_def ret_assert_def defcls_def defclsnop_def reset_depth_def
  set_containsCalls_def set_lastOff_def emit_srcloc_def srcLoc_of_def SrcLoc_default_def
  set_offset_def set_past_def set_regionsToPop_def kInvalidOffset_def NoBlockId_def Let_def
  emitInt32_at_def

lemma emit_inst_ret_fails:
  assumes "isRet (op inst)" and "currentStackDepth t \<noteq> 1"
  shows "emit_inst func inst t = Inl AssertFail"
proof -
  from assms(1) obtain k where k: "op inst = RetOp k" by (cases "op inst") auto
  show ?thesis
    using assms(2)
    by (simp add: emit_inst_def emit_opcode_def k when_do_def ret_assert_def set_lastOff_def Let_def)
qed

lemma depth_inv_init: "depth_inv (init_state func st0)"
  by (auto simp: depth_inv_def init_state_def BlockInfo_init_def)

lemmas ex_state_defs = ex_site_def ex_site_done_def ex_rest_def ex_fall_def

lemma set_expected_depth_records:
  assumes "set_expected_depth i s = Inr s1"
  shows "i < length (blockInfo s1)"
    and "expectedStackDepth (blockInfo s1 ! i) = Some (currentStackDepth s)"
    and "expectedFPIDepth (blockInfo s1 ! i) = Some (length (fpiStack s))"
    and "currentStackDepth s1 = currentStackDepth s"
  using assms
  by (auto simp: set_expected_depth_def update_info_def Let_def split: if_splits)

lemma set_expected_depth_checks:
  assumes "set_expected_depth i s = Inr s1"
  shows "expectedStackDepth (blockInfo s ! i) = Some d \<Longrightarrow> currentStackDepth s = d"
    and "expectedFPIDepth (blockInfo s ! i) = Some e \<Longrightarrow> length (fpiStack s) = e"
  using assms
  by (auto simp: set_expected_depth_def update_info_def Let_def split: if_splits)

lemma preorder_frame_bd: "preorder_rel frame_bd"
  by (auto simp: preorder_rel_def frame_bd_def)

lemma patch_jumps_frame: "keeps frame_bd (patch_jumps off fxs)"
  unfolding patch_jumps_def
  by (rule keeps_seq [OF preorder_frame_bd])
     (auto simp: keeps_def frame_bd_def emitInt32_at_def split: if_splits)

lemma end_fpi_while_frame: "keeps frame_bd (end_fpi_while e)"
proof (rule keepsI)
  fix s s' assume "end_fpi_while e s = Inr s'"
  then show "frame_bd s s'"
  proof (induction e s rule: end_fpi_while.induct)
    case (1 e st)
    show ?case
    proof (cases "e < length (fpiStack st)")
      case True
      with "1.prems" obtain s1 where a: "end_fpi (lastOff st) st = Inr s1"
        and b: "end_fpi_while e s1 = Inr s'"
        by (subst (asm) end_fpi_while.simps) (auto split: sum.splits)
      have "frame_bd st s1" using a by (auto simp: frame_bd_def end_fpi_def split: if_splits)
      moreover have "frame_bd s1 s'" using "1.IH" [OF True a b] .
      ultimately show ?thesis by (simp add: frame_bd_def)
    next
      case False
      with "1.prems" have "s' = st" by (subst (asm) end_fpi_while.simps) simp
      then show ?thesis by (simp add: frame_bd_def)
    qed
  qed
qed

lemma begin_block_depths:
  assumes "begin_block b s = Inr s'"
  shows "id_b b < length (blockInfo s')"
    and "currentStackDepth s' = (case expectedStackDepth (blockInfo s ! id_b b) of None \<Rightarrow> 0 | Some d \<Rightarrow> d)"
    and "expectedStackDepth (blockInfo s' ! id_b b) = Some (currentStackDepth s')"
    and "expectedFPIDepth (blockInfo s' ! id_b b)
           = Some (case expectedFPIDepth (blockInfo s ! id_b b) of None \<Rightarrow> 0 | Some d \<Rightarrow> d)"
proof -
  let ?i = "id_b b"
  from assms have i: "?i < length (blockInfo s)"
    by (auto simp: begin_block_def split: if_splits)
  from assms i obtain s1 s2 s3 where
    1: "s1 = set_offset ?i (bcPos s) s"
    and 2: "patch_jumps (bcPos s) (forwardJumps (blockInfo s ! ?i)) s1 = Inr s2"
    and 3: "enter_depths ?i s2 = Inr s3"
    and 4: "close_fpis ?i s3 = Inr s'"
    by (auto simp: begin_block_def and_then_Inr_iff pure_step_def)
  have f2: "frame_bd s1 s2" using keepsD [OF patch_jumps_frame 2] .
  have f4: "frame_bd s3 s'"
    using 4 keepsD [OF end_fpi_while_frame]
    by (auto simp: close_fpis_def split: option.splits if_splits)
  have b2: "blockInfo s2 = (blockInfo s)[?i := (blockInfo s ! ?i)\<lparr>offset := bcPos s\<rparr>]"
    using f2 1 by (simp add: frame_bd_def set_offset_def update_info_def)
  let ?esd = "case expectedStackDepth (blockInfo s ! ?i) of None \<Rightarrow> 0 | Some d \<Rightarrow> d"
  let ?efd = "case expectedFPIDepth (blockInfo s ! ?i) of None \<Rightarrow> 0 | Some d \<Rightarrow> d"
  from 3 b2 i have d3: "currentStackDepth s3 = ?esd"
    and l3: "length (blockInfo s3) = length (blockInfo s)"
    and e3: "expectedStackDepth (blockInfo s3 ! ?i) = Some ?esd"
    and g3: "expectedFPIDepth (blockInfo s3 ! ?i) = Some ?efd"
    by (auto simp: enter_depths_def update_info_def Let_def split: if_splits)
  show "id_b b < length (blockInfo s')" using f4 l3 i by (simp add: frame_bd_def)
  show "currentStackDepth s' = ?esd" using f4 d3 by (simp add: frame_bd_def)
  show "expectedStackDepth (blockInfo s' ! id_b b) = Some (currentStackDepth s')"
    using f4 d3 e3 by (simp add: frame_bd_def)
  show "expectedFPIDepth (blockInfo s' ! id_b b) = Some ?efd"
    using f4 g3 by (simp add: frame_bd_def)
qed

lemma run_expected_kept: "run func acts s = Inr s' \<Longrightarrow> expected_kept s s'"
  using keepsD [OF keeps_run [OF prims_keep_expected_kept]] .

lemma expected_keptD:
  assumes "expected_kept s s'" and "i < length (blockInfo s)"
  shows "expectedStackDepth (blockInfo s ! i) = Some d \<Longrightarrow> expectedStackDepth (blockInfo s' ! i) = Some d"
    and "expectedFPIDepth (blockInfo s ! i) = Some e \<Longrightarrow> expectedFPIDepth (blockInfo s' ! i) = Some e"
  using assms by (auto simp: expected_kept_def)

section \<open>Emitting the regions of the exception table\<close>

lemma emit_eh_region_cases:
  assumes "emit_eh_region regs binfo r (tab, pim) = Inr (tab', pim')"
  shows "(start_r (regs ! r) = past_r (regs ! r) \<longrightarrow> tab' = tab \<and> pim' = pim)
       \<and> (start_r (regs ! r) \<noteq> past_r (regs ! r) \<longrightarrow>
            (\<exists>e. tab' = tab @ [e] \<and> m_base e = start_r (regs ! r) \<and> m_past e = past_r (regs ! r)
                 \<and> eh_ok e)
            \<and> pim' = pim(r \<mapsto> length tab))"
  using assms
  by (auto simp: emit_eh_region_def Let_def and_then_Inr_iff eh_ok_def
      split: if_splits option.splits ExnInfo.splits)

lemma emit_eh_regions_ok:
  assumes "emit_eh_regions regs binfo rs (tab, pim) = Inr (tab', pim')"
    and "\<forall>e \<in> set tab. eh_ok e"
  shows "\<forall>e \<in> set tab'. eh_ok e"
  using assms
proof (induction rs arbitrary: tab pim)
  case Nil
  then show ?case by simp
next
  case (Cons r rs)
  from Cons.prems(1) obtain t1 p1 where 1: "emit_eh_region regs binfo r (tab, pim) = Inr (t1, p1)"
    and 2: "emit_eh_regions regs binfo rs (t1, p1) = Inr (tab', pim')"
    by (auto simp: and_then_Inr_iff)
  from emit_eh_region_cases [OF 1] Cons.prems(2) have "\<forall>e \<in> set t1. eh_ok e"
    by (cases "start_r (regs ! r) = past_r (regs ! r)") auto
  from Cons.IH [OF 2 this] show ?case .
qed

lemmas eh_eval_defs = ex_N1_def ex_N2_def ex_eh_order_def ex_eh_info_def ex_eh_regions_def
  BlockInfo_init_def emit_ehent_tree_def walk_layout_def walk_block_def pop_active_def
  push_active_def emit_eh_region_def region_less_def is_ancestor_def
  regions_by_node_def kInvalidOffset_def NoBlockId_def Let_def

lemma ex_walk:
  "walk_layout ex_eh_info ex_eh_order
     = Inr \<lparr>regions = ex_eh_regions, exnMap = (\<lambda>_. [])(1 := [0], 2 := [1]), activeList = []\<rparr>"
  by (simp add: eh_eval_defs ex_Int_def ex_PopC_def ex_Nop_def ex_RetC_def ex_inst_def)

section \<open>Recording class definitions\<close>

lemma defcls_keptD:
  "defcls_kept s s' \<Longrightarrow> i < length (defClsMap s) \<Longrightarrow> defClsMap s ! i \<noteq> kInvalidOffset
     \<Longrightarrow> defClsMap s' ! i = defClsMap s ! i \<and> i < length (defClsMap s')"
  by (simp add: defcls_kept_def)

lemma defcls_kept_refl: "defcls_kept s s"
  by (simp add: defcls_kept_def)

lemma defcls_kept_trans: "defcls_kept a b \<Longrightarrow> defcls_kept b c \<Longrightarrow> defcls_kept a c"
  by (auto simp: defcls_kept_def)

lemma defcls_effect:
  assumes "defcls inst so s = Inr s'" and "arg 1 inst = Inr N"
  shows "N < length (defClsMap s) \<and> defClsMap s ! N = kInvalidOffset
         \<and> defClsMap s' = (defClsMap s)[N := so]"
  using assms by (auto simp: defcls_def split: if_splits)

lemma defclsnop_eq: "defclsnop = defcls"
  by (auto simp: fun_eq_iff defclsnop_def defcls_def)

lemma seq_when_False: "seq (when_do False f # rest) = seq rest"
  by (rule ext) (simp add: when_do_def)

lemma seq_two_whens:
  assumes "c1 \<noteq> c2"
  shows "seq (when_do c1 f # when_do c2 f # rest) s = and_then (f s) (seq rest)"
proof (cases c1)
  case True
  with assms have "\<not> c2" by simp
  with True show ?thesis by (simp add: seq_when_False) (simp add: when_do_def)
next
  case False
  with assms have "c2" by simp
  with False show ?thesis by (simp add: when_do_def)
qed

lemma emit_opcode_defcls_eq:
  assumes "op inst = DefCls \<or> op inst = DefClsNop"
  shows "emit_opcode func so inst s = and_then (defcls inst so s) (seq (opcode_tail func so inst))"
proof -
  from assms have ne: "(op inst = DefCls) \<noteq> (op inst = DefClsNop)" by auto
  show ?thesis
    unfolding emit_opcode_def opcode_tail_def defclsnop_eq append_Cons append_Nil
    by (rule seq_two_whens [OF ne])
qed

lemma emit_opcode_tail_kept:
  assumes p: "inst_prims_keep R"
  shows "keeps R (seq (opcode_tail func so inst))"
  unfolding opcode_tail_def
  by (rule keeps_seq' [OF p])
     (auto intro!: keeps_when [OF p] simp: inst_prims_keepD [OF p] keeps_ret_assert [OF p]
        keeps_emitOp [OF p] keeps_do_pop [OF p] keeps_emit_imm [OF p] fcall_def)

lemma emit_inst_defcls:
  assumes e: "emit_inst func inst s = Inr s1"
    and o: "op inst = DefCls \<or> op inst = DefClsNop"
    and a: "arg 1 inst = Inr N"
  shows "N < length (defClsMap s)" and "defClsMap s ! N = kInvalidOffset"
    and "bcPos s \<noteq> kInvalidOffset \<Longrightarrow> defClsMap s1 ! N = bcPos s"
proof -
  let ?so = "bcPos s"
  let ?s0 = "set_lastOff ?so s"
  let ?tail = "seq (opcode_tail func ?so inst)"
  from o have n: "op inst \<noteq> Nop" by auto
  have "emit_opcode func ?so inst ?s0 = and_then (defcls inst ?so ?s0) ?tail"
    by (rule emit_opcode_defcls_eq [OF o])
  with e n obtain sa where 1: "defcls inst ?so ?s0 = Inr sa" and 2: "?tail sa = Inr s1"
    by (auto simp: emit_inst_def Let_def and_then_Inr_iff)
  from defcls_effect [OF 1 a] have 3: "N < length (defClsMap ?s0)"
    "defClsMap ?s0 ! N = kInvalidOffset" "defClsMap sa = (defClsMap ?s0)[N := ?so]"
    by simp_all
  show "N < length (defClsMap s)" "defClsMap s ! N = kInvalidOffset"
    using 3 by (simp_all add: set_lastOff_def)
  assume v: "bcPos s \<noteq> kInvalidOffset"
  have k: "defcls_kept sa s1"
    using keepsD [OF emit_opcode_tail_kept [OF prims_keep_inst [OF prims_keep_defcls_kept]] 2] .
  have "defClsMap sa ! N = ?so" "N < length (defClsMap sa)" using 3 by simp_all
  with defcls_keptD [OF k, of N] v show "defClsMap s1 ! N = bcPos s" by simp
qed

lemma emit_inst_defcls_twice:
  assumes o: "op inst = DefCls \<or> op inst = DefClsNop"
    and a: "arg 1 inst = Inr N"
    and "N < length (defClsMap s)" and "defClsMap s ! N \<noteq> kInvalidOffset"
  shows "emit_inst func inst s = Inl AssertFail"
proof -
  from o have n: "op inst \<noteq> Nop" by auto
  have "defcls inst (bcPos s) (set_lastOff (bcPos s) s) = Inl AssertFail"
    using assms(2-4) by (simp add: defcls_def set_lastOff_def)
  then show ?thesis
    using n by (simp add: emit_inst_def Let_def emit_opcode_defcls_eq [OF o])
qed

lemma end_fpi_while_kept:
  "prims_keep R \<Longrightarrow> end_fpi_while e s = Inr s' \<Longrightarrow> R s s'"
  using keepsD [OF keeps_end_fpi_while] .

lemma emit_bytecode_defcls_kept:
  assumes "emit_bytecode rM rD func st = Inr (order, st')"
  shows "defcls_kept st st'"
proof -
  from assms obtain s1 where 1: "emit_blocks func order (init_state func st) = Inr s1"
    and 2: "end_fpi_while 0 s1 = Inr st'"
    by (auto simp: emit_bytecode_def and_then_Inr_iff)
  have "defcls_kept st (init_state func st)"
    by (simp add: defcls_kept_def init_state_def)
  moreover have "defcls_kept (init_state func st) s1"
    using keepsD [OF keeps_emit_blocks [OF prims_keep_defcls_kept] 1] .
  moreover have "defcls_kept s1 st'"
    using end_fpi_while_kept [OF prims_keep_defcls_kept 2] .
  ultimately show ?thesis using defcls_kept_trans by blast
qed

lemma unit_kept_refl: "unit_kept u u"
  by (simp add: unit_kept_def defcls_kept_refl)

lemma unit_kept_trans: "unit_kept a b \<Longrightarrow> unit_kept b c \<Longrightarrow> unit_kept a c"
  using defcls_kept_trans by (auto simp: unit_kept_def)

lemma emit_body_kept:
  assumes "emit_body rM rD func u = Inr u'"
  shows "unit_kept u u'"
  using assms emit_bytecode_defcls_kept [of rM rD func "est u"]
  by (auto simp: emit_body_def and_then_Inr_iff unit_kept_def)

lemma emit_funcs_kept: "emit_funcs rM rD fs u = Inr u' \<Longrightarrow> unit_kept u u'"
proof (induction fs arbitrary: u)
  case Nil
  then show ?case by (simp add: unit_kept_refl)
next
  case (Cons f fs)
  then obtain u1 where 1: "emit_func rM rD f u = Inr u1" and 2: "emit_funcs rM rD fs u1 = Inr u'"
    by (auto simp: and_then_Inr_iff)
  from 1 have "unit_kept u u1" by (simp add: emit_func_def emit_body_kept)
  with Cons.IH [OF 2] show ?case using unit_kept_trans by blast
qed

lemma emit_methods_kept: "emit_methods rM rD nd ms u = Inr u' \<Longrightarrow> unit_kept u u'"
proof (induction ms arbitrary: u)
  case Nil
  then show ?case by (simp add: unit_kept_refl)
next
  case (Cons m ms)
  show ?case
  proof (cases "\<not> nd \<and> name_m m = ''86cinit''")
    case True
    with Cons.prems have "emit_methods rM rD nd ms u = Inr u'" by simp
    then show ?thesis by (rule Cons.IH)
  next
    case False
    with Cons.prems obtain u1 where 1: "emit_func rM rD (func_m m) u = Inr u1"
      and 2: "emit_methods rM rD nd ms u1 = Inr u'"
      by (auto simp: and_then_Inr_iff)
    from 1 have "unit_kept u u1" by (simp add: emit_func_def emit_body_kept)
    with Cons.IH [OF 2] show ?thesis using unit_kept_trans by blast
  qed
qed

lemma emit_class_kept: "emit_class rM rD c u = Inr u' \<Longrightarrow> unit_kept u u'"
proof -
  assume "emit_class rM rD c u = Inr u'"
  then have "unit_kept (u\<lparr>pces := pces u @ [bcPos (est u)]\<rparr>) u'"
    unfolding emit_class_def by (rule emit_methods_kept)
  then show ?thesis by (simp add: unit_kept_def)
qed

lemma emit_classes_kept: "emit_classes rM rD cs u = Inr u' \<Longrightarrow> unit_kept u u'"
proof (induction cs arbitrary: u)
  case Nil
  then show ?case by (simp add: unit_kept_refl)
next
  case (Cons c cs)
  then obtain u1 where 1: "emit_class rM rD c u = Inr u1" and 2: "emit_classes rM rD cs u1 = Inr u'"
    by (auto simp: and_then_Inr_iff)
  from emit_class_kept [OF 1] Cons.IH [OF 2] show ?case using unit_kept_trans by blast
qed

lemma set_pce_offsets_effect:
  assumes "set_pce_offsets n u = Inr u'"
  shows "est u' = est u \<and> length (pces u') = length (pces u)
       \<and> (\<forall>N < n. defClsMap (est u) ! N \<noteq> kInvalidOffset \<longrightarrow> pces u' ! N = defClsMap (est u) ! N)
       \<and> (\<forall>N \<ge> n. pces u' ! N = pces u ! N)"
  using assms
proof (induction n arbitrary: u')
  case 0
  then show ?case by simp
next
  case (Suc n)
  from Suc.prems obtain u1 where 1: "set_pce_offsets n u = Inr u1"
    and 2: "(if \<not> n < length (defClsMap (est u1)) then Inl OutOfRange
       else if defClsMap (est u1) ! n \<noteq> kInvalidOffset then
         (if \<not> n < length (pces u1) then Inl OutOfRange
          else Inr (u1\<lparr>pces := (pces u1)[n := defClsMap (est u1) ! n]\<rparr>))
       else Inr u1) = Inr u'"
    by (auto simp: and_then_Inr_iff)
  note ih = Suc.IH [OF 1]
  show ?case
  proof (cases "defClsMap (est u1) ! n \<noteq> kInvalidOffset")
    case True
    with 2 have n: "n < length (pces u1)"
      and u': "u' = u1\<lparr>pces := (pces u1)[n := defClsMap (est u1) ! n]\<rparr>"
      by (auto split: if_splits)
    show ?thesis
      using ih n unfolding u'
      by (auto simp: nth_list_update less_Suc_eq)
  next
    case False
    with 2 have "u' = u1" by (auto split: if_splits)
    with ih False show ?thesis by (auto simp: less_Suc_eq)
  qed
qed

lemma finish_unit_offsets:
  assumes "finish_unit rM rD nd ms cs fs n u = Inr u'"
  shows "defcls_kept (est u) (est u')"
    and "\<forall>N < n. defClsMap (est u') ! N \<noteq> kInvalidOffset \<longrightarrow> pces u' ! N = defClsMap (est u') ! N"
proof -
  from assms obtain u1 u2 u3 where 1: "emit_methods rM rD nd ms u = Inr u1"
    and 2: "emit_classes rM rD cs u1 = Inr u2" and 3: "emit_funcs rM rD fs u2 = Inr u3"
    and 4: "set_pce_offsets n u3 = Inr u'"
    by (auto simp: finish_unit_def and_then_Inr_iff)
  from emit_methods_kept [OF 1] emit_classes_kept [OF 2] emit_funcs_kept [OF 3]
  have "unit_kept u u3" using unit_kept_trans by blast
  moreover note e = set_pce_offsets_effect [OF 4]
  ultimately show "defcls_kept (est u) (est u')" by (simp add: unit_kept_def)
  from e show "\<forall>N < n. defClsMap (est u') ! N \<noteq> kInvalidOffset \<longrightarrow> pces u' ! N = defClsMap (est u') ! N"
    by simp
qed

lemmas unit_eval_defs = ex_pm_def ex_unit_def ex_defcls_site_def ex_defcls_rest_def
  ex_defcls_done_def ex_pm_end_def unit_start_def emit_unit_def finish_unit_def emit_class_def
  needs86cinit_of_def emit_pseudomain_def emit_body_def emit_func_def emit_finish_func_def
  emit_locals_and_params_def newFuncEmitter_def numLocals_def
  emit_bytecode_def order_blocks_def dvBlocks_def is_single_nop_def emit_init_func_def

subsection \<open>The FPI stack and the FPI regions\<close>

lemma fpi_frame_refl: "fpi_frame s s"
  by (simp add: fpi_frame_def)

lemma fpi_frame_trans: "fpi_frame a b \<Longrightarrow> fpi_frame b c \<Longrightarrow> fpi_frame a c"
  by (auto simp: fpi_frame_def)





lemma emit_opcode_split:
  "emit_opcode func so inst = seq (opcode_front func so inst @ opcode_back func so inst)"
  by (simp add: emit_opcode_def opcode_front_def opcode_back_def)





































subsection \<open>The encoder refines the payload of the specification\<close>

lemma encodesI:
  assumes "\<And>x y. f x = Inr y \<Longrightarrow> offs x = os \<Longrightarrow>
     bc y = bc x @ fst (e (tabs x)) \<and> tabs y = snd (e (tabs x)) \<and> offs y = os"
  shows "encodes os f e"
  using assms unfolding encodes_def by blast

lemma encodesD:
  assumes "encodes os f e" and "f x = Inr y" and "offs x = os"
  shows "bc y = bc x @ fst (e (tabs x))" and "tabs y = snd (e (tabs x))" and "offs y = os"
  using assms unfolding encodes_def by blast+

lemma encodes_seq:
  assumes "list_all2 (encodes os) fs es"
  shows "encodes os (seq fs) (cat es)"
  using assms
proof (induction fs es rule: list_all2_induct)
  case Nil
  show ?case by (rule encodesI) simp
next
  case (Cons f fs e es)
  show ?case
  proof (rule encodesI)
    fix x y assume a: "seq (f # fs) x = Inr y" and o: "offs x = os"
    from a obtain x1 where 1: "f x = Inr x1" and 2: "seq fs x1 = Inr y"
      by (auto simp: and_then_Inr_iff)
    note h = encodesD [OF Cons.hyps(1) 1 o]
    note t = encodesD [OF Cons.IH 2 h(3)]
    show "bc y = bc x @ fst (cat (e # es) (tabs x)) \<and> tabs y = snd (cat (e # es) (tabs x))
        \<and> offs y = os"
      using h t by (simp add: split_beta)
  qed
qed

lemma encodes_cells: "encodes os (pure_step (emitCells cs)) (lit cs)"
  by (rule encodesI) (auto simp: pure_step_def emitCells_def lit_def tabs_def offs_def)

lemma encodes_int32: "encodes os (pure_step (emitInt32 v)) (lit (int32_cells v))"
  unfolding emitInt32_def int32_cells_def by (rule encodes_cells)

lemma encodes_int64: "encodes os (pure_step (emitInt64 v)) (lit (int64_cells v))"
  unfolding emitInt64_def int64_cells_def by (rule encodes_cells)

lemma encodes_byte: "encodes os (pure_step (emitByte b)) (lit [Byte b])"
  unfolding emitByte_def by (rule encodes_cells)

lemma encodes_iva: "encodes os (pure_step (emitIVA n)) (lit (iva_cells n))"
proof (cases "n < 128")
  case True
  then have "emitIVA n = emitByte (of_nat n)" "iva_cells n = [Byte (of_nat n)]"
    by (simp_all add: emitIVA_def iva_cells_def)
  then show ?thesis by (simp add: encodes_byte)
next
  case False
  then have "emitIVA n = emitInt32 (int ((n div 128) * 256 + 128 + n mod 128))"
    "iva_cells n = int32_cells (int ((n div 128) * 256 + 128 + n mod 128))"
    by (simp_all add: emitIVA_def iva_cells_def)
  then show ?thesis by (simp only: encodes_int32)
qed

lemma encodes_litstr: "encodes os (pure_step (emit_litstr s)) (str_id s)"
  by (rule encodesI)
     (auto simp: pure_step_def emit_litstr_def emitInt32_def emitCells_def str_id_def
       int32_cells_def tabs_def offs_def split: prod.splits)

lemma encodes_array: "encodes os (pure_step (emit_array a)) (arr_id a)"
  by (rule encodesI)
     (auto simp: pure_step_def emit_array_def emitInt32_def emitCells_def arr_id_def
       int32_cells_def tabs_def offs_def split: prod.splits)

lemma offs_update_info:
  assumes "\<And>nfo. offset (g nfo) = offset nfo"
  shows "offs (update_info i g s) = offs s"
proof (cases "i < length (blockInfo s)")
  case True
  have "map offset ((blockInfo s)[i := g (blockInfo s ! i)])
      = (map offset (blockInfo s))[i := map offset (blockInfo s) ! i]"
    using True by (simp add: map_update assms)
  then show ?thesis by (simp add: offs_def update_info_def)
next
  case False
  then show ?thesis by (simp add: offs_def update_info_def list_update_beyond)
qed

lemma encodes_branch: "encodes os (emit_branch so t) (lit (branch_cells os so t))"
proof (rule encodesI)
  fix x y assume a: "emit_branch so t x = Inr y" and o: "offs x = os"
  from a obtain x1 where 1: "set_expected_depth t x = Inr x1"
    and 2: "y = (if offset (blockInfo x1 ! t) \<noteq> kInvalidOffset
                 then emitInt32 (offset (blockInfo x1 ! t) - so) x1
                 else emitInt32 0 (add_fixup t \<lparr>instrOff = so, jmpImmedOff = bcPos x1\<rparr> x1))"
    by (auto simp: emit_branch_def and_then_Inr_iff split: if_splits)
  from 1 have lt: "t < length (blockInfo x)"
    and x1: "x1 = update_info t (\<lambda>info. info\<lparr>expectedStackDepth := Some (currentStackDepth x),
                                   expectedFPIDepth := Some (length (fpiStack x))\<rparr>) x"
    by (auto simp: set_expected_depth_def Let_def split: if_splits)
  have o1: "offs x1 = os" unfolding x1 using o by (simp add: offs_update_info)
  have b1: "bc x1 = bc x" "tabs x1 = tabs x"
    unfolding x1 by (simp_all add: update_info_def tabs_def)
  have l1: "t < length (blockInfo x1)" unfolding x1 using lt by (simp add: update_info_def)
  have ot: "offset (blockInfo x1 ! t) = os ! t"
    using o1 l1 by (auto simp: offs_def)
  show "bc y = bc x @ fst (lit (branch_cells os so t) (tabs x))
      \<and> tabs y = snd (lit (branch_cells os so t) (tabs x)) \<and> offs y = os"
  proof (cases "os ! t \<noteq> kInvalidOffset")
    case True
    with 2 ot have "y = emitInt32 (os ! t - so) x1" by simp
    with True b1 o1 show ?thesis
      by (simp add: emitInt32_def emitCells_def lit_def branch_cells_def int32_cells_def
          tabs_def offs_def)
  next
    case False
    with 2 ot have y: "y = emitInt32 0 (add_fixup t \<lparr>instrOff = so, jmpImmedOff = bcPos x1\<rparr> x1)"
      by simp
    have "offs (add_fixup t \<lparr>instrOff = so, jmpImmedOff = bcPos x1\<rparr> x1) = os"
      unfolding add_fixup_def using o1 by (simp add: offs_update_info)
    with False b1 y show ?thesis
      by (simp add: emitInt32_def emitCells_def lit_def branch_cells_def int32_cells_def
          tabs_def offs_def add_fixup_def update_info_def)
  qed
qed

lemma list_all2_concat_map:
  assumes "\<And>x. x \<in> set xs \<Longrightarrow> list_all2 P (f x) (g x)"
  shows "list_all2 P (concat (map f xs)) (concat (map g xs))"
  using assms by (induction xs) (auto intro: list_all2_appendI)

lemma list_all2_map_same:
  assumes "\<And>x. x \<in> set xs \<Longrightarrow> P (f x) (g x)"
  shows "list_all2 P (map f xs) (map g xs)"
  using assms by (induction xs) auto

lemma encodes_map_local:
  "encodes os (\<lambda>st. and_then (map_local func l) (\<lambda>l'. Inr (emitIVA l' st))) (lit (local_cells func l))"
proof (rule encodesI)
  fix x y assume a: "and_then (map_local func l) (\<lambda>l'. Inr (emitIVA l' x)) = Inr y"
    and o: "offs x = os"
  then obtain v where v: "map_local func l = Inr v" and y: "pure_step (emitIVA v) x = Inr y"
    by (auto simp: and_then_Inr_iff pure_step_def)
  from v have "v = id_l (locals func ! l)"
    by (auto simp: map_local_def Let_def split: if_splits)
  with encodesD [OF encodes_iva y o]
  show "bc y = bc x @ fst (lit (local_cells func l) (tabs x))
      \<and> tabs y = snd (lit (local_cells func l) (tabs x)) \<and> offs y = os"
    by (simp add: local_cells_def)
qed

lemma encodes_lit_append:
  assumes "encodes os (pure_step f) (lit a)" and "encodes os (pure_step g) (lit b)"
  shows "encodes os (pure_step (\<lambda>s. g (f s))) (lit (a @ b))"
proof (rule encodesI)
  fix x y assume "pure_step (\<lambda>s. g (f s)) x = Inr y" and o: "offs x = os"
  then have y: "y = g (f x)" by (simp add: pure_step_def)
  have 1: "pure_step f x = Inr (f x)" by (simp add: pure_step_def)
  note h = encodesD [OF assms(1) 1 o]
  have 2: "pure_step g (f x) = Inr y" by (simp add: pure_step_def y)
  note k = encodesD [OF assms(2) 2 h(3)]
  show "bc y = bc x @ fst (lit (a @ b) (tabs x)) \<and> tabs y = snd (lit (a @ b) (tabs x))
      \<and> offs y = os"
    using h k by (simp add: lit_def)
qed

lemma encodes_pure_then:
  assumes "encodes os (pure_step f) (lit a)" and "encodes os (pure_step g) e"
  shows "encodes os (pure_step (\<lambda>s. g (f s))) (cat [lit a, e])"
proof (rule encodesI)
  fix x y assume "pure_step (\<lambda>s. g (f s)) x = Inr y" and o: "offs x = os"
  then have y: "y = g (f x)" by (simp add: pure_step_def)
  have 1: "pure_step f x = Inr (f x)" by (simp add: pure_step_def)
  note h = encodesD [OF assms(1) 1 o]
  have 2: "pure_step g (f x) = Inr y" by (simp add: pure_step_def y)
  note k = encodesD [OF assms(2) 2 h(3)]
  show "bc y = bc x @ fst (cat [lit a, e] (tabs x)) \<and> tabs y = snd (cat [lit a, e] (tabs x))
      \<and> offs y = os"
    using h k by (simp add: lit_def split_beta)
qed

lemma encode_member_key_fun:
  "encode_member_key (MEC i) = (\<lambda>s. emitIVA i (emitByte 0 s))"
  "encode_member_key (MPC i) = (\<lambda>s. emitIVA i (emitByte 1 s))"
  "encode_member_key (MEL l) = (\<lambda>s. emitIVA l (emitByte 2 s))"
  "encode_member_key (MPL l) = (\<lambda>s. emitIVA l (emitByte 3 s))"
  "encode_member_key (MET n) = (\<lambda>s. emit_litstr n (emitByte 4 s))"
  "encode_member_key (MPT n) = (\<lambda>s. emit_litstr n (emitByte 5 s))"
  "encode_member_key (MQT n) = (\<lambda>s. emit_litstr n (emitByte 6 s))"
  "encode_member_key (MEI v) = (\<lambda>s. emitInt64 v (emitByte 7 s))"
  "encode_member_key MW = emitByte 8"
  by (rule ext, simp)+

lemma encodes_member_key:
  "encodes os (pure_step (encode_member_key k))
     (case k of MEL l \<Rightarrow> lit (Byte 2 # iva_cells l) | MPL l \<Rightarrow> lit (Byte 3 # iva_cells l)
      | _ \<Rightarrow> mkey_payload func k)"
proof (cases k)
  case (MEC i)
  show ?thesis unfolding MEC encode_member_key_fun
    using encodes_lit_append [OF encodes_byte [of os 0] encodes_iva [of os i]] by simp
next
  case (MPC i)
  show ?thesis unfolding MPC encode_member_key_fun
    using encodes_lit_append [OF encodes_byte [of os 1] encodes_iva [of os i]] by simp
next
  case (MEL l)
  show ?thesis unfolding MEL encode_member_key_fun
    using encodes_lit_append [OF encodes_byte [of os 2] encodes_iva [of os l]] by simp
next
  case (MPL l)
  show ?thesis unfolding MPL encode_member_key_fun
    using encodes_lit_append [OF encodes_byte [of os 3] encodes_iva [of os l]] by simp
next
  case (MET n)
  show ?thesis unfolding MET encode_member_key_fun
    using encodes_pure_then [OF encodes_byte [of os 4] encodes_litstr [of os n]] by simp
next
  case (MPT n)
  show ?thesis unfolding MPT encode_member_key_fun
    using encodes_pure_then [OF encodes_byte [of os 5] encodes_litstr [of os n]] by simp
next
  case (MQT n)
  show ?thesis unfolding MQT encode_member_key_fun
    using encodes_pure_then [OF encodes_byte [of os 6] encodes_litstr [of os n]] by simp
next
  case (MEI v)
  show ?thesis unfolding MEI encode_member_key_fun
    using encodes_lit_append [OF encodes_byte [of os 7] encodes_int64 [of os v]] by simp
next
  case MW
  show ?thesis unfolding MW encode_member_key_fun using encodes_byte [of os 8] by simp
qed


lemma map_local_id: "map_local func l = Inr v \<Longrightarrow> v = id_l (locals func ! l)"
  by (auto simp: map_local_def Let_def split: if_splits)

lemma encodes_key:
  "encodes os (\<lambda>st. and_then (make_member_key func mkey) (\<lambda>k. Inr (encode_member_key k st)))
     (mkey_payload func mkey)"
proof (rule encodesI)
  fix x y
  assume a: "and_then (make_member_key func mkey) (\<lambda>k. Inr (encode_member_key k x)) = Inr y"
    and o: "offs x = os"
  then obtain k where k: "make_member_key func mkey = Inr k"
    and y: "pure_step (encode_member_key k) x = Inr y"
    by (auto simp: and_then_Inr_iff pure_step_def)
  note e = encodesD [OF encodes_member_key [of os k func] y o]
  have "(case k of MEL l \<Rightarrow> lit (Byte 2 # iva_cells l) | MPL l \<Rightarrow> lit (Byte 3 # iva_cells l)
      | _ \<Rightarrow> mkey_payload func k) = mkey_payload func mkey"
    using k
    by (cases mkey)
       (auto simp: make_member_key_def and_then_Inr_iff local_cells_def dest: map_local_id)
  with e show "bc y = bc x @ fst (mkey_payload func mkey (tabs x))
      \<and> tabs y = snd (mkey_payload func mkey (tabs x)) \<and> offs y = os"
    by simp
qed

lemma encodes_lar:
  "encodes os (emit_lar func r) (lit (local_cells func (first r) @ iva_cells (restCount r)))"
proof (rule encodesI)
  fix x y assume a: "emit_lar func r x = Inr y" and o: "offs x = os"
  then obtain f where f: "map_local func (first r) = Inr f"
    and y: "y = emitIVA (restCount r) (emitIVA f x)"
    by (auto simp: emit_lar_def and_then_Inr_iff split: if_splits)
  have "pure_step (\<lambda>s. emitIVA (restCount r) (emitIVA f s)) x = Inr y"
    by (simp add: pure_step_def y)
  from encodesD [OF encodes_lit_append [OF encodes_iva encodes_iva] this o] map_local_id [OF f]
  show "bc y = bc x @ fst (lit (local_cells func (first r) @ iva_cells (restCount r)) (tabs x))
      \<and> tabs y = snd (lit (local_cells func (first r) @ iva_cells (restCount r)) (tabs x))
      \<and> offs y = os"
    by (simp add: local_cells_def)
qed

lemma encodes_switch:
  "encodes os (emit_switch so ts)
     (cat (lit (int32_cells (int (length ts))) # map (\<lambda>t. lit (branch_cells os so t)) ts))"
  unfolding emit_switch_def
  by (rule encodes_seq)
     (simp add: encodes_int32 list_all2_map_same encodes_branch)

lemma encodes_vsa:
  "encodes os (emit_vsa ks) (cat (lit (int32_cells (int (length ks))) # map str_id ks))"
  unfolding emit_vsa_def
  by (rule encodes_seq)
     (simp add: encodes_int32 list_all2_map_same encodes_litstr)

lemma encodes_itertab:
  "encodes os (emit_itertab tab)
     (cat (lit (int32_cells (int (length tab)))
          # concat (map (\<lambda>kv. [lit (int32_cells (fst kv)), lit (int32_cells (snd kv))]) tab)))"
  unfolding emit_itertab_def
  by (rule encodes_seq)
     (simp add: encodes_int32 list_all2_concat_map)

lemma encodes_sswitch:
  "encodes os (emit_sswitch so ts)
     (cat (lit (int32_cells (int (length ts)))
          # concat (map (\<lambda>p. [str_id (fst p), lit (branch_cells os so (snd p))]) (butlast ts))
          @ [lit (int32_cells (- 1)), lit (branch_cells os so (snd (last ts)))]))"
proof (rule encodesI)
  let ?fs = "pure_step (emitInt32 (int (length ts)))
             # concat (map (\<lambda>t. [pure_step (emit_litstr (fst t)),
                                   emit_branch so (snd t)]) (butlast ts))
             @ [pure_step (emitInt32 (- 1)), emit_branch so (snd (last ts))]"
  let ?es = "lit (int32_cells (int (length ts)))
          # concat (map (\<lambda>p. [str_id (fst p), lit (branch_cells os so (snd p))]) (butlast ts))
          @ [lit (int32_cells (- 1)), lit (branch_cells os so (snd (last ts)))]"
  fix x y assume a: "emit_sswitch so ts x = Inr y" and o: "offs x = os"
  then have s: "seq ?fs x = Inr y"
    by (auto simp: emit_sswitch_def split: if_splits)
  have "list_all2 (encodes os) ?fs ?es"
    by (auto intro!: list_all2_appendI list_all2_concat_map
        simp: encodes_int32 encodes_litstr encodes_branch)
  from encodesD [OF encodes_seq [OF this] s o]
  show "bc y = bc x @ fst (cat ?es (tabs x)) \<and> tabs y = snd (cat ?es (tabs x)) \<and> offs y = os"
    by simp
qed

lemma encodes_imm: "encodes os (emit_imm func so imm) (imm_payload func os so imm)"
proof (cases imm)
  case (BLA ts)
  then show ?thesis by (simp add: encodes_switch)
next
  case (SLA ts)
  then show ?thesis by (simp add: encodes_sswitch)
next
  case (ILA tab)
  then show ?thesis by (simp add: encodes_itertab)
next
  case (LA l)
  then show ?thesis by (simp add: encodes_map_local)
next
  case (DA d)
  then show ?thesis
    using encodes_cells [of os "map Byte (int64_bytes (uint d))"]
    by (simp add: emitDouble_def int64_cells_def)
next
  case (RATA blob)
  then show ?thesis using encodes_cells [of os "map Byte blob"] by (simp add: encodeRAT_def)
next
  case (VSA ks)
  then show ?thesis by (simp add: encodes_vsa)
next
  case (KA k)
  then show ?thesis by (simp add: encodes_key)
next
  case (LAR r)
  then show ?thesis by (simp add: encodes_lar)
qed (simp_all add: encodes_iva encodes_int64 encodes_litstr encodes_array encodes_byte
      encodes_branch)

lemma encodes_imms:
  "encodes os (seq (map (emit_imm func so) is)) (payload func os so is)"
  unfolding payload_def
  by (rule encodes_seq) (simp add: list_all2_map_same encodes_imm)


lemma preorder_quiet: "preorder_rel quiet"
  by (auto simp: preorder_rel_def quiet_def)

lemma quiet_when: "keeps quiet f \<Longrightarrow> keeps quiet (when_do c f)"
  by (auto simp: keeps_def when_do_def quiet_def)

lemma quiet_steps:
  "keeps quiet (defcls inst so)" "keeps quiet (defclsnop inst so)" "keeps quiet ret_assert"
  "keeps quiet (pure_step (fpush so))" "keeps quiet (fcall so)"
  "keeps quiet (pure_step reset_depth)" "keeps quiet (pure_step set_containsCalls)"
  "keeps quiet (emit_srcloc func inst so)" "keeps quiet (pop n)"
  by (auto simp: keeps_def quiet_def tabs_def offs_def defcls_def defclsnop_def ret_assert_def
      pure_step_def fpush_def fcall_def end_fpi_def reset_depth_def set_containsCalls_def
      emit_srcloc_def pop_def and_then_Inr_iff Let_def split: if_splits)

lemma quiet_do_pop: "keeps quiet (do_pop i inst)"
proof -
  have a: "keeps quiet (pop_arg n inst)" for n
    using quiet_steps(9) by (auto simp: keeps_def pop_arg_def and_then_Inr_iff)
  have b: "keeps quiet (seq [pop 1, pop_arg (Suc 0) inst])"
    by (rule keeps_seq [OF preorder_quiet]) (auto simp: a quiet_steps)
  have c: "keeps quiet (\<lambda>st. and_then (keys_of (imms inst)) (\<lambda>ks. pop (int (length ks)) st))"
    using quiet_steps(9) by (auto simp: keeps_def and_then_Inr_iff)
  have d: "keeps quiet Inr" by (simp add: keeps_def quiet_def)
  show ?thesis
    by (cases i) (simp_all add: a b c d quiet_steps)
qed

lemma quiet_do_push: "keeps quiet (do_push u)"
  by (cases u) (auto simp: keeps_def quiet_def tabs_def offs_def pure_step_def push_def Let_def)

lemma opcode_front_payload:
  assumes "seq (opcode_front func so inst) s = Inr sb"
  shows "bc sb = bc s @ OpByte (op inst) # fst (payload func (offs s) so (imms inst) (tabs s))
     \<and> tabs sb = snd (payload func (offs s) so (imms inst) (tabs s)) \<and> offs sb = offs s"
proof -
  let ?h = "[when_do (op inst = DefCls) (defcls inst so),
             when_do (op inst = DefClsNop) (defclsnop inst so),
             when_do (isRet (op inst)) ret_assert]"
  let ?m = "[do_pop (inputs inst) inst, do_push (outputs inst)]"
  have "opcode_front func so inst
      = ?h @ [pure_step (emitOp (op inst))] @ ?m @ map (emit_imm func so) (imms inst)"
    by (simp add: opcode_front_def)
  with assms obtain s1 s2 sa where 1: "seq ?h s = Inr s1"
    and 2: "seq [pure_step (emitOp (op inst))] s1 = Inr s2"
    and 3: "seq ?m s2 = Inr sa"
    and 4: "seq (map (emit_imm func so) (imms inst)) sa = Inr sb"
    by (auto simp only: seq_append_Inr_iff)
  have "keeps quiet (seq ?h)"
    by (rule keeps_seq [OF preorder_quiet]) (auto intro: quiet_when quiet_steps)
  from keepsD [OF this 1] have q1: "quiet s s1" .
  from 2 have e2: "s2 = emitOp (op inst) s1" by (simp add: pure_step_def)
  have "keeps quiet (seq ?m)"
    by (rule keeps_seq [OF preorder_quiet]) (auto intro: quiet_do_pop quiet_do_push)
  from keepsD [OF this 3] have q3: "quiet s2 sa" .
  from q1 e2 q3 have a: "bc sa = bc s @ [OpByte (op inst)]" "tabs sa = tabs s" "offs sa = offs s"
    by (simp_all add: quiet_def emitOp_def emitCells_def tabs_def offs_def)
  from encodesD [OF encodes_imms 4 a(3)] a show ?thesis by simp
qed

lemma opcode_back_quiet:
  assumes "seq (opcode_back func so inst) s = Inr s'"
  shows "quiet s s'"
proof -
  have "keeps quiet (seq (opcode_back func so inst))"
    unfolding opcode_back_def
    by (rule keeps_seq [OF preorder_quiet]) (auto intro: quiet_when quiet_steps)
  from keepsD [OF this assms] show ?thesis .
qed

lemma emit_inst_payload:
  assumes "emit_inst func inst s = Inr s'" and "op inst \<noteq> Nop"
  shows "bc s' = bc s @ OpByte (op inst)
                    # fst (payload func (offs s) (bcPos s) (imms inst) (tabs s))"
    and "tabs s' = snd (payload func (offs s) (bcPos s) (imms inst) (tabs s))"
proof -
  let ?so = "bcPos s"
  let ?s0 = "set_lastOff ?so s"
  from assms have "emit_opcode func ?so inst ?s0 = Inr s'"
    by (simp add: emit_inst_def Let_def)
  then obtain sb where f: "seq (opcode_front func ?so inst) ?s0 = Inr sb"
    and b: "seq (opcode_back func ?so inst) sb = Inr s'"
    by (auto simp: emit_opcode_split seq_append_Inr_iff)
  have 0: "bc ?s0 = bc s" "tabs ?s0 = tabs s" "offs ?s0 = offs s"
    by (simp_all add: set_lastOff_def tabs_def offs_def)
  from opcode_front_payload [OF f] opcode_back_quiet [OF b] 0
  show "bc s' = bc s @ OpByte (op inst)
                    # fst (payload func (offs s) (bcPos s) (imms inst) (tabs s))"
    and "tabs s' = snd (payload func (offs s) (bcPos s) (imms inst) (tabs s))"
    by (simp_all add: quiet_def)
qed


section \<open>Properties of the local mapping\<close>

lemma assign_local_ids_length: "length (assign_local_ids n locs) = length locs"
  by (induction locs arbitrary: n) auto

lemma assign_local_ids_killed:
  "i < length locs \<Longrightarrow> killed (assign_local_ids n locs ! i) = killed (locs ! i)"
  by (induction locs arbitrary: n i) (auto simp: nth_Cons split: nat.splits)

lemma assign_local_ids_live:
  "i < length locs \<Longrightarrow> \<not> killed (locs ! i) \<Longrightarrow>
   id_l (assign_local_ids n locs ! i) = n + length (filter (\<lambda>l. \<not> killed l) (take i locs))"
  by (induction locs arbitrary: n i) (auto simp: nth_Cons split: nat.splits)

lemma assign_local_ids_dead:
  "i < length locs \<Longrightarrow> killed (locs ! i) \<Longrightarrow> id_l (assign_local_ids n locs ! i) = INT_MAX"
  by (induction locs arbitrary: n i) (auto simp: nth_Cons split: nat.splits)

lemma map_local_init_iff:
  "map_local (emit_init_func func) i = Inr v \<longleftrightarrow>
   i < length (locals func) \<and> \<not> killed (locals func ! i) \<and>
   v = length (filter (\<lambda>l. \<not> killed l) (take i (locals func)))"
proof -
  have le: "length (filter (\<lambda>l. \<not> killed l) (take i (locals func))) \<le> i"
    by (rule order_trans [OF length_filter_le]) simp
  show ?thesis
    using le
    by (auto simp: map_local_def emit_init_func_def assign_local_ids_length
        assign_local_ids_killed assign_local_ids_live Let_def)
qed

lemma filter_live_all:
  assumes "length (filter P xs) = length xs"
  shows "\<forall>x \<in> set xs. P x"
proof
  fix x assume "x \<in> set xs"
  show "P x"
  proof (rule ccontr)
    assume "\<not> P x"
    with \<open>x \<in> set xs\<close> have "length (filter P xs) < length xs"
      by (rule length_filter_less)
    with assms show False by simp
  qed
qed

lemma map_local_init_fix:
  assumes "map_local (emit_init_func func) i = Inr v"
  shows "map_local (emit_init_func func) v = Inr v \<longleftrightarrow> (\<forall>l \<in> set (take i (locals func)). \<not> killed l)"
proof -
  let ?live = "\<lambda>l. \<not> killed l"
  from assms have a: "i < length (locals func)" "\<not> killed (locals func ! i)"
    and v: "v = length (filter ?live (take i (locals func)))"
    by (simp_all add: map_local_init_iff)
  have le: "v \<le> i" unfolding v by (rule order_trans [OF length_filter_le]) simp
  show ?thesis
  proof
    assume "\<forall>l \<in> set (take i (locals func)). \<not> killed l"
    then have "filter ?live (take i (locals func)) = take i (locals func)"
      by (simp add: filter_id_conv)
    with v a have "v = i" by simp
    with assms show "map_local (emit_init_func func) v = Inr v" by simp
  next
    assume f: "map_local (emit_init_func func) v = Inr v"
    then have b: "v < length (locals func)" "\<not> killed (locals func ! v)"
      and w: "v = length (filter ?live (take v (locals func)))"
      by (simp_all add: map_local_init_iff)
    have "v = i"
    proof (rule ccontr)
      assume "v \<noteq> i"
      with le have lt: "v < i" by simp
      have "take (Suc v) (take i (locals func)) = take v (locals func) @ [locals func ! v]"
        using lt b(1) by (simp add: take_Suc_conv_app_nth min_def)
      then have "take i (locals func)
          = (take v (locals func) @ [locals func ! v]) @ drop (Suc v) (take i (locals func))"
        using append_take_drop_id [of "Suc v" "take i (locals func)"] by simp
      then have "filter ?live (take i (locals func))
          = filter ?live (take v (locals func) @ [locals func ! v])
            @ filter ?live (drop (Suc v) (take i (locals func)))"
        using filter_append by metis
      then have "length (filter ?live (take i (locals func)))
          \<ge> length (filter ?live (take v (locals func))) + 1"
        using b(2) by simp
      with v w show False by simp
    qed
    moreover from w b(1) have "\<forall>x \<in> set (take v (locals func)). \<not> killed x"
      by (intro filter_live_all) simp
    ultimately show "\<forall>l \<in> set (take i (locals func)). \<not> killed l" by simp
  qed
qed

lemma seq_map_member:
  assumes "seq (map f xs) s = Inr s'" and "x \<in> set xs"
  shows "\<exists>a b. f x a = Inr b"
  using assms
proof (induction xs arbitrary: s)
  case Nil
  then show ?case by simp
next
  case (Cons y ys)
  from Cons.prems(1) obtain s1 where 1: "f y s = Inr s1" and 2: "seq (map f ys) s1 = Inr s'"
    by (auto simp: and_then_Inr_iff)
  show ?case
  proof (cases "x = y")
    case True
    with 1 show ?thesis by blast
  next
    case False
    with Cons.prems(2) have "x \<in> set ys" by simp
    from Cons.IH [OF 2 this] show ?thesis .
  qed
qed

lemma emit_inst_imm_emitted:
  assumes "emit_inst func inst s = Inr s'" and "op inst \<noteq> Nop" and "imm \<in> set (imms inst)"
  shows "\<exists>a b. emit_imm func (bcPos s) imm a = Inr b"
proof -
  from assms(1,2) have "emit_opcode func (bcPos s) inst (set_lastOff (bcPos s) s) = Inr s'"
    by (simp add: emit_inst_def Let_def)
  from emit_opcode_stream [OF this] obtain sa sb where
    "seq (map (emit_imm func (bcPos s)) (imms inst)) sa = Inr sb"
    by blast
  from seq_map_member [OF this assms(3)] show ?thesis .
qed

text \<open>
  Claim C9, as amended. \<^verbatim>\<open>emit_init_func\<close> gives a killed local the id \<^verbatim>\<open>INT_MAX\<close> and
  a live local the number of live locals before it. After that \<^verbatim>\<open>map_local\<close> is
  defined exactly on the live locals and sends a local to that number, which is at most
  the local's index; mapping the result again gives the same result exactly when no
  killed local precedes the local. \<^verbatim>\<open>map_local\<close> returns \<^verbatim>\<open>locals[id].id\<close>, and every
  local of an emitted immediate goes through it: a local immediate, the local of a member
  key and the first local of a local range are emitted as what \<^verbatim>\<open>map_local\<close> returns, and
  an instruction is emitted only if \<^verbatim>\<open>map_local\<close> is defined on each of them.
\<close>

theorem map_local_after_init:
  "(map_local (emit_init_func func) i = Inr v \<longleftrightarrow>
       i < length (locals func) \<and> \<not> killed (locals func ! i)
     \<and> v = length (filter (\<lambda>l. \<not> killed l) (take i (locals func))))
   \<and> (map_local (emit_init_func func) i = Inr v \<longrightarrow>
       v \<le> i
     \<and> (map_local (emit_init_func func) v = Inr v
          \<longleftrightarrow> (\<forall>l \<in> set (take i (locals func)). \<not> killed l)))
   \<and> (j < length (locals func) \<longrightarrow>
       id_l (locals (emit_init_func func) ! j)
         = (if killed (locals func ! j) then INT_MAX
            else length (filter (\<lambda>l. \<not> killed l) (take j (locals func)))))
   \<and> (map_local fn k = Inr w \<longrightarrow>
       k < length (locals fn) \<and> \<not> killed (locals fn ! k) \<and> w = id_l (locals fn ! k))
   \<and> emit_imm fn so (LA l) s = and_then (map_local fn l) (\<lambda>l'. Inr (emitIVA l' s))
   \<and> emit_imm fn so (KA (MEL l)) s
        = and_then (map_local fn l) (\<lambda>l'. Inr (emitIVA l' (emitByte 2 s)))
   \<and> emit_imm fn so (KA (MPL l)) s
        = and_then (map_local fn l) (\<lambda>l'. Inr (emitIVA l' (emitByte 3 s)))
   \<and> (emit_imm fn so (LAR r) s = Inr s' \<longrightarrow>
       (\<exists>f. map_local fn (first r) = Inr f \<and> s' = emitIVA (restCount r) (emitIVA f s)))
   \<and> (emit_inst fn inst t = Inr t' \<longrightarrow> op inst \<noteq> Nop \<longrightarrow>
       LA l \<in> set (imms inst) \<or> KA (MEL l) \<in> set (imms inst) \<or> KA (MPL l) \<in> set (imms inst)
       \<longrightarrow> (\<exists>v. map_local fn l = Inr v))"
proof (intro conjI impI)
  show "map_local (emit_init_func func) i = Inr v \<longleftrightarrow>
       i < length (locals func) \<and> \<not> killed (locals func ! i)
     \<and> v = length (filter (\<lambda>l. \<not> killed l) (take i (locals func)))"
    by (rule map_local_init_iff)
next
  assume a: "map_local (emit_init_func func) i = Inr v"
  then have "v = length (filter (\<lambda>l. \<not> killed l) (take i (locals func)))"
    by (simp add: map_local_init_iff)
  then show "v \<le> i" using length_filter_le [of "\<lambda>l. \<not> killed l" "take i (locals func)"] by simp
  show "map_local (emit_init_func func) v = Inr v
          \<longleftrightarrow> (\<forall>l \<in> set (take i (locals func)). \<not> killed l)"
    using a by (rule map_local_init_fix)
next
  assume "j < length (locals func)"
  then show "id_l (locals (emit_init_func func) ! j)
         = (if killed (locals func ! j) then INT_MAX
            else length (filter (\<lambda>l. \<not> killed l) (take j (locals func))))"
    by (simp add: emit_init_func_def assign_local_ids_dead assign_local_ids_live)
next
  assume "map_local fn k = Inr w"
  then show "k < length (locals fn)" "\<not> killed (locals fn ! k)" "w = id_l (locals fn ! k)"
    by (auto simp: map_local_def Let_def split: if_splits)
next
  show "emit_imm fn so (LA l) s = and_then (map_local fn l) (\<lambda>l'. Inr (emitIVA l' s))"
    by simp
  show "emit_imm fn so (KA (MEL l)) s
        = and_then (map_local fn l) (\<lambda>l'. Inr (emitIVA l' (emitByte 2 s)))"
    by (cases "map_local fn l") (simp_all add: make_member_key_def)
  show "emit_imm fn so (KA (MPL l)) s
        = and_then (map_local fn l) (\<lambda>l'. Inr (emitIVA l' (emitByte 3 s)))"
    by (cases "map_local fn l") (simp_all add: make_member_key_def)
next
  assume "emit_imm fn so (LAR r) s = Inr s'"
  then show "\<exists>f. map_local fn (first r) = Inr f \<and> s' = emitIVA (restCount r) (emitIVA f s)"
    by (auto simp: emit_lar_def and_then_Inr_iff split: if_splits)
next
  assume e: "emit_inst fn inst t = Inr t'" and n: "op inst \<noteq> Nop"
    and m: "LA l \<in> set (imms inst) \<or> KA (MEL l) \<in> set (imms inst) \<or> KA (MPL l) \<in> set (imms inst)"
  from m consider "LA l \<in> set (imms inst)" | "KA (MEL l) \<in> set (imms inst)"
    | "KA (MPL l) \<in> set (imms inst)" by blast
  then show "\<exists>v. map_local fn l = Inr v"
  proof cases
    case 1
    from emit_inst_imm_emitted [OF e n this] show ?thesis
      by (auto simp: and_then_Inr_iff)
  next
    case 2
    from emit_inst_imm_emitted [OF e n this] show ?thesis
      by (auto simp: and_then_Inr_iff make_member_key_def)
  next
    case 3
    from emit_inst_imm_emitted [OF e n this] show ?thesis
      by (auto simp: and_then_Inr_iff make_member_key_def)
  qed
qed

theorem map_local_after_init_witness:
  "map_local (emit_init_func ex_locals_live) 1 = Inr 1
   \<and> \<not> killed (locals ex_locals_live ! 0) \<and> \<not> killed (locals ex_locals_live ! 1)
   \<and> killed (locals ex_locals_live ! 2)
   \<and> id_l (locals (emit_init_func ex_locals_live) ! 2) = INT_MAX
   \<and> map_local (emit_init_func ex_locals) 2 = Inr 1
   \<and> id_l (locals (emit_init_func ex_locals) ! 2) = 1
   \<and> emit_imm (emit_init_func ex_locals) 0 (LA 2) ex_state = Inr (emitIVA 1 ex_state)
   \<and> emit_imm (emit_init_func ex_locals) 0 (KA (MEL 2)) ex_state
        = Inr (emitIVA 1 (emitByte 2 ex_state))
   \<and> emit_imm (emit_init_func ex_locals) 0 (KA (MPL 2)) ex_state
        = Inr (emitIVA 1 (emitByte 3 ex_state))
   \<and> emit_imm (emit_init_func ex_locals) 0 (LAR \<lparr>first = 1, restCount = 1\<rparr>) ex_state
        = Inr (emitIVA 1 (emitIVA 0 ex_state))
   \<and> map_local (emit_init_func ex_locals) 1 = Inr 0
   \<and> op (ex_CGetL 2) \<noteq> Nop \<and> LA 2 \<in> set (imms (ex_CGetL 2))
   \<and> (\<exists>t'. emit_inst (emit_init_func ex_locals) (ex_CGetL 2) ex_state = Inr t')"
proof -
  let ?fn = "emit_init_func ex_locals"
  let ?r = "\<lparr>first = 1, restCount = 1\<rparr>"
  have m: "map_local (emit_init_func ex_locals_live) 1 = Inr 1"
    by (simp add: ex_locals_live_def emit_init_func_def map_local_def)
  have k: "\<not> killed (locals ex_locals_live ! 0)" "\<not> killed (locals ex_locals_live ! 1)"
    "killed (locals ex_locals_live ! 2)" "2 < length (locals ex_locals_live)"
    "\<forall>l \<in> set (take 1 (locals ex_locals_live)). \<not> killed l"
    by (simp_all add: ex_locals_live_def)
  have n: "map_local ?fn 2 = Inr 1" "map_local ?fn 1 = Inr 0"
    by (simp_all add: ex_locals_def emit_init_func_def map_local_def)
  have lar: "emit_imm ?fn 0 (LAR ?r) ex_state = Inr (emitIVA 1 (emitIVA 0 ex_state))"
    by (simp add: ex_locals_def emit_init_func_def map_local_def emit_lar_def)
  have i: "op (ex_CGetL 2) \<noteq> Nop" "LA 2 \<in> set (imms (ex_CGetL 2))"
    by (simp_all add: ex_CGetL_def ex_inst_def)
  have "\<exists>t'. emit_inst ?fn (ex_CGetL 2) ex_state = Inr t'"
    by (simp add: ex_CGetL_def ex_defs eval_defs ex_locals_def emit_init_func_def map_local_def)
  then obtain t' where e: "emit_inst ?fn (ex_CGetL 2) ex_state = Inr t'" ..
  note t = map_local_after_init [where func = ex_locals_live and i = 1 and v = 1 and j = 2
      and fn = ?fn and k = 2 and w = 1 and so = 0 and l = 2 and s = ex_state and r = ?r
      and s' = "emitIVA 1 (emitIVA 0 ex_state)" and inst = "ex_CGetL 2" and t = ex_state
      and t' = t']
  from t m k have a: "id_l (locals (emit_init_func ex_locals_live) ! 2) = INT_MAX"
    by simp
  from t n have b: "id_l (locals ?fn ! 2) = 1"
    by simp
  from t n have c: "emit_imm ?fn 0 (LA 2) ex_state = Inr (emitIVA 1 ex_state)"
    "emit_imm ?fn 0 (KA (MEL 2)) ex_state = Inr (emitIVA 1 (emitByte 2 ex_state))"
    "emit_imm ?fn 0 (KA (MPL 2)) ex_state = Inr (emitIVA 1 (emitByte 3 ex_state))"
    by simp_all
  show ?thesis using m k(1-3) a n b c lar i e by blast
qed

text \<open>
  Claim C9 as stated fails: with locals \<open>[killed, live, live]\<close> the local 2 is mapped to
  1, and 1 is mapped to 0, so mapping twice does not give what mapping once gives.
\<close>

theorem map_local_not_idempotent:
  "map_local (emit_init_func ex_locals) 2 = Inr 1
   \<and> and_then (map_local (emit_init_func ex_locals) 2) (map_local (emit_init_func ex_locals)) = Inr 0"
  by (simp add: ex_locals_def emit_init_func_def map_local_def and_then_def)

section \<open>Properties of the block order\<close>

lemma hd_sort_key_min:
  assumes "\<forall>y \<in> set xs. f x \<le> f y"
  shows "sort_key f (x # xs) = x # sort_key f xs"
  using assms by (simp add: insort_is_Cons)

lemma order_blocks_map:
  assumes "order_blocks M W = Inr res" and "\<And>b h. g (b\<lparr>hhbcs := h\<rparr>) = g b"
  shows "map g res = map g (sort_key (\<lambda>b. section_rank (section_b b)) (M @ dvBlocks M W))"
proof (cases "sort_key (\<lambda>b. section_rank (section_b b)) (M @ dvBlocks M W)")
  case Nil
  with assms show ?thesis by (simp add: order_blocks_def split: if_splits)
next
  case (Cons front rest)
  let ?f = "\<lambda>b. if id_b b = id_b front then b\<lparr>hhbcs := [bc_EntryNop]\<rparr> else b"
  from assms(1) have M: "M \<noteq> []"
    by (auto simp: order_blocks_def split: if_splits)
  have "order_blocks M W =
          Inr (if is_single_nop front then map ?f (front # rest) else front # rest)"
    unfolding order_blocks_def using M Cons by simp
  with assms(1) have r: "res = (if is_single_nop front then map ?f (front # rest) else front # rest)"
    by simp
  have "g (?f b) = g b" for b by (simp add: assms(2))
  then have "map g (map ?f (front # rest)) = map g (front # rest)"
    by (simp only: map_map comp_def)
  with r have "map g res = map g (front # rest)"
    by (cases "is_single_nop front") simp_all
  then show ?thesis by (simp only: Cons)
qed

text \<open>
  Claim C2, as amended. Whenever \<^verbatim>\<open>order_blocks\<close> returns, the emitted order is the
  reverse postorder from the main entry, followed by the part of the second traversal
  (seeded with the DV entries too) that \<^emph>\<open>precedes\<close> the main entry, the main entry and
  everything after it being erased, the whole stable-sorted by section with Main before
  Fault. Hence the sections appear in ascending order (every Main block before every
  Fault block), the relative order inside each section is the one of the unsorted list,
  and the main entry is first when it is a Main-section block.
\<close>

theorem order_blocks_layout:
  assumes "order_blocks rpoMain rpoDVs = Inr res"
  shows "map id_b res =
           map id_b (sort_key (\<lambda>b. section_rank (section_b b))
                       (rpoMain @ takeWhile (\<lambda>b. id_b b \<noteq> id_b (hd rpoMain)) rpoDVs))
     \<and> sorted (map (\<lambda>b. section_rank (section_b b)) res)
     \<and> (\<forall>s. map id_b (filter (\<lambda>b. section_b b = s) res) =
             map id_b (filter (\<lambda>b. section_b b = s)
                         (rpoMain @ takeWhile (\<lambda>b. id_b b \<noteq> id_b (hd rpoMain)) rpoDVs)))
     \<and> (section_b (hd rpoMain) = Main \<longrightarrow> id_b (hd res) = id_b (hd rpoMain))"
proof -
  let ?k = "\<lambda>b. section_rank (section_b b)"
  let ?S = "rpoMain @ takeWhile (\<lambda>b. id_b b \<noteq> id_b (hd rpoMain)) rpoDVs"
  have m: "map g res = map g (sort_key ?k ?S)" if "\<And>b h. g (b\<lparr>hhbcs := h\<rparr>) = g b" for g :: "Block \<Rightarrow> nat"
    using order_blocks_map [OF assms, of g] that by (simp add: dvBlocks_def)
  have ne: "rpoMain \<noteq> []" using assms by (auto simp: order_blocks_def split: if_splits)
  have 1: "map id_b res = map id_b (sort_key ?k ?S)" by (rule m) simp
  have mk: "map ?k res = map ?k (sort_key ?k ?S)" by (rule m) simp
  have 2: "sorted (map ?k res)" by (simp add: mk)
  have inj: "section_b b = s \<longleftrightarrow> ?k b = section_rank s" for b s
    by (cases "section_b b"; cases s) simp_all
  have 3: "map id_b (filter (\<lambda>b. section_b b = s) res) = map id_b (filter (\<lambda>b. section_b b = s) ?S)" for s
  proof -
    have z: "map (\<lambda>b. (id_b b, ?k b)) res = map (\<lambda>b. (id_b b, ?k b)) (sort_key ?k ?S)"
      using 1 mk by (simp add: list_eq_iff_nth_eq)
    have "map id_b (filter (\<lambda>b. section_b b = s) res)
        = map fst (filter (\<lambda>p. snd p = section_rank s) (map (\<lambda>b. (id_b b, ?k b)) res))"
      by (simp add: filter_map comp_def inj)
    also have "\<dots> = map fst (filter (\<lambda>p. snd p = section_rank s) (map (\<lambda>b. (id_b b, ?k b)) (sort_key ?k ?S)))"
      by (simp only: z)
    also have "\<dots> = map id_b (filter (\<lambda>b. ?k b = section_rank s) (sort_key ?k ?S))"
      by (simp add: filter_map comp_def)
    also have "\<dots> = map id_b (filter (\<lambda>b. ?k b = section_rank s) ?S)"
      by (simp only: sort_key_stable)
    finally show ?thesis by (simp add: inj)
  qed
  have 4: "id_b (hd res) = id_b (hd rpoMain)" if "section_b (hd rpoMain) = Main"
  proof -
    from ne obtain e ms where M: "rpoMain = e # ms" by (cases rpoMain) auto
    let ?rest = "ms @ takeWhile (\<lambda>b. id_b b \<noteq> id_b e) rpoDVs"
    have "sort_key ?k (e # ?rest) = e # sort_key ?k ?rest"
      by (rule hd_sort_key_min) (use that M in simp)
    then have "map id_b (sort_key ?k ?S) = id_b e # map id_b (sort_key ?k ?rest)"
      using M by simp
    with 1 have "map id_b res = id_b e # map id_b (sort_key ?k ?rest)" by simp
    then show ?thesis using M by (cases res) auto
  qed
  show ?thesis using 1 2 3 4 by blast
qed

theorem order_blocks_layout_witness:
  "order_blocks ex_M2 ex_W2 = Inr [ex_block 0 Main 1, ex_block 2 Main 0, ex_block 1 Fault NoBlockId]
   \<and> section_b (hd ex_M2) = Main
   \<and> id_b (hd [ex_block 0 Main 1, ex_block 2 Main 0, ex_block 1 Fault NoBlockId]) = id_b (hd ex_M2)"
proof -
  have r: "order_blocks ex_M2 ex_W2 = Inr [ex_block 0 Main 1, ex_block 2 Main 0, ex_block 1 Fault NoBlockId]"
    by (simp add: order_blocks_def dvBlocks_def ex_M2_def ex_W2_def ex_block_def is_single_nop_def)
  have s: "section_b (hd ex_M2) = Main" by (simp add: ex_M2_def ex_block_def)
  from order_blocks_layout [OF r] s show ?thesis using r by blast
qed

text \<open>
  Claim C2 as stated fails. With main traversal \<open>[0, 1]\<close> and second traversal
  \<open>[2, 0, 1]\<close> (block 2 a DV entry falling through to block 0) the source emits
  \<open>[0, 1, 2]\<close>; removing the main entry and what precedes it, as the claim words it,
  would leave block 1 in the DV part and emit it twice.
\<close>

theorem order_blocks_not_spec:
  "order_blocks ex_M ex_W = Inr [ex_block 0 Main 1, ex_block 1 Main NoBlockId, ex_block 2 Main 0]
   \<and> order_spec dvBlocks_spec ex_M ex_W
       = [ex_block 0 Main 1, ex_block 1 Main NoBlockId, ex_block 2 Main 0, ex_block 1 Main NoBlockId]
   \<and> order_spec dvBlocks_spec_suffix ex_M ex_W
       = [ex_block 0 Main 1, ex_block 1 Main NoBlockId, ex_block 1 Main NoBlockId]"
  by (simp add: order_blocks_def order_spec_def dvBlocks_def dvBlocks_spec_def dvBlocks_spec_suffix_def
      ex_M_def ex_W_def ex_block_def is_single_nop_def)

section \<open>Properties of the instruction encoder\<close>

text \<open>
  Claim C6, as amended. Emitting an instruction whose opcode is not \<^verbatim>\<open>Nop\<close> appends to
  the stream exactly the one byte of the opcode tag followed by the payload of its
  immediates in schema order, as the encoding table of the specification gives it for
  the block offsets and the literal tables at hand, and leaves the literal tables as the
  interning of that payload leaves them; an instruction whose opcode is \<^verbatim>\<open>Nop\<close> appends
  nothing (the dispatching switch skips it) and only moves \<open>lastOff\<close>.
\<close>

theorem emit_inst_stream:
  "(op inst \<noteq> Nop \<longrightarrow> emit_inst func inst s = Inr s' \<longrightarrow>
      bc s' = bc s @ OpByte (op inst)
                # fst (payload func (map offset (blockInfo s)) (bcPos s) (imms inst)
                         (litstrs s, arrays s))
    \<and> (litstrs s', arrays s')
        = snd (payload func (map offset (blockInfo s)) (bcPos s) (imms inst)
                 (litstrs s, arrays s)))
   \<and> (op inst = Nop \<longrightarrow> emit_inst func inst s = Inr (set_lastOff (bcPos s) s)
         \<and> bc (set_lastOff (bcPos s) s) = bc s)"
proof (intro conjI impI)
  assume n: "op inst \<noteq> Nop" and e: "emit_inst func inst s = Inr s'"
  from emit_inst_payload [OF e n]
  show "bc s' = bc s @ OpByte (op inst)
                # fst (payload func (map offset (blockInfo s)) (bcPos s) (imms inst)
                         (litstrs s, arrays s))"
    and "(litstrs s', arrays s')
        = snd (payload func (map offset (blockInfo s)) (bcPos s) (imms inst)
                 (litstrs s, arrays s))"
    by (simp_all add: offs_def tabs_def)
next
  assume "op inst = Nop"
  then show "emit_inst func inst s = Inr (set_lastOff (bcPos s) s)"
    by (simp add: emit_inst_def Let_def)
next
  show "bc (set_lastOff (bcPos s) s) = bc s" by (simp add: set_lastOff_def)
qed

theorem emit_inst_stream_witness:
  "op ex_SS \<noteq> Nop
   \<and> (\<exists>s'. emit_inst ex_func ex_SS (ex_state\<lparr>litstrs := [''a'']\<rparr>) = Inr s'
          \<and> bc s' = [OpByte (OtherOp 5), Byte 1, Byte 0, Byte 0, Byte 0,
                      Byte 0, Byte 0, Byte 0, Byte 0, Byte 3]
          \<and> litstrs s' = [''a'', ''b''])
   \<and> op ex_Nop = Nop
   \<and> emit_inst ex_func ex_Nop ex_state = Inr (set_lastOff (bcPos ex_state) ex_state)"
proof -
  let ?s = "ex_state\<lparr>litstrs := [''a'']\<rparr>"
  have n: "op ex_SS \<noteq> Nop" "op ex_Nop = Nop" by (simp_all add: ex_SS_def ex_defs)
  have "\<exists>s'. emit_inst ex_func ex_SS ?s = Inr s'"
    by (simp add: ex_SS_def ex_defs eval_defs)
  then obtain s' where e: "emit_inst ex_func ex_SS ?s = Inr s'" ..
  have p: "payload ex_func (map offset (blockInfo ?s)) (bcPos ?s) (imms ex_SS)
             (litstrs ?s, arrays ?s)
           = ([Byte 1, Byte 0, Byte 0, Byte 0, Byte 0, Byte 0, Byte 0, Byte 0, Byte 3],
              ([''a'', ''b''], []))"
    by (simp add: ex_SS_def ex_defs payload_def str_id_def intern_def lit_def iva_cells_def
        int32_cells_def int32_bytes_def)
  have b: "bc ?s = []" by (simp add: ex_defs)
  from emit_inst_stream [of ex_SS ex_func ?s s'] n(1) e
  have "bc s' = bc ?s @ OpByte (op ex_SS)
                # fst (payload ex_func (map offset (blockInfo ?s)) (bcPos ?s) (imms ex_SS)
                         (litstrs ?s, arrays ?s))"
    and "(litstrs s', arrays s')
        = snd (payload ex_func (map offset (blockInfo ?s)) (bcPos ?s) (imms ex_SS)
                 (litstrs ?s, arrays ?s))"
    by blast+
  then have c: "bc s' = [OpByte (OtherOp 5), Byte 1, Byte 0, Byte 0, Byte 0,
                      Byte 0, Byte 0, Byte 0, Byte 0, Byte 3]"
    and d: "litstrs s' = [''a'', ''b'']"
    unfolding p b by (simp_all add: ex_SS_def ex_defs)
  from emit_inst_stream [of ex_Nop ex_func ex_state s'] n(2)
  have "emit_inst ex_func ex_Nop ex_state = Inr (set_lastOff (bcPos ex_state) ex_state)" by blast
  then show ?thesis using n e c d by blast
qed

text \<open>
  Claim C6 as stated fails: a \<^verbatim>\<open>Nop\<close> instruction, such as the one of block 1 of the
  example function, leaves the stream as it was and contributes no opcode byte.
\<close>

theorem nop_emits_no_byte:
  "op ex_Nop = Nop \<and> ex_Nop \<in> set (hhbcs (blocks ex_func ! 1))
   \<and> emit_inst ex_func ex_Nop ex_state = Inr ex_state \<and> bc ex_state = []"
  by (simp add: ex_defs eval_defs)

section \<open>Properties of the stack-depth tracker\<close>

text \<open>
  Claim C7. In every state an emission reaches from its start state, at whatever call,
  the tracked evaluation-stack depth is non-negative; a pop that would make it negative
  fails the assertion; an instruction of the return family whose emission starts at a
  depth other than one fails the assertion before anything is emitted. Both failures are
  the fatal \<open>AssertFail\<close>, never a result.
\<close>

theorem stack_depth_tracking:
  "(run func acts (init_state func st0) = Inr s \<longrightarrow> 0 \<le> currentStackDepth s)
   \<and> (currentStackDepth t - n < 0 \<longrightarrow> pop n t = Inl AssertFail)
   \<and> (isRet (op inst) \<longrightarrow> currentStackDepth t \<noteq> 1 \<longrightarrow> emit_inst func inst t = Inl AssertFail)"
proof (intro conjI impI)
  assume r: "run func acts (init_state func st0) = Inr s"
  have "depth_rel (init_state func st0) s"
    using keepsD [OF keeps_run [OF prims_keep_depth_rel] r] .
  then have "depth_inv s" using depth_inv_init by (simp add: depth_rel_def)
  then show "0 \<le> currentStackDepth s" by (simp add: depth_inv_def)
next
  assume "currentStackDepth t - n < 0"
  then show "pop n t = Inl AssertFail" by (simp add: pop_def)
next
  assume "isRet (op inst)" "currentStackDepth t \<noteq> 1"
  then show "emit_inst func inst t = Inl AssertFail" by (rule emit_inst_ret_fails)
qed

theorem stack_depth_tracking_witness:
  "(\<exists>s. run ex_func [Begin_block (blocks ex_func ! 0), Emit_inst ex_Int, Set_lastOff 9,
                      Emit_cells [OpByte (OtherOp 2)], Pop 1] (init_state ex_func ex_state) = Inr s
        \<and> 0 \<le> currentStackDepth s)
   \<and> currentStackDepth ex_state - 1 < 0 \<and> pop 1 ex_state = Inl AssertFail
   \<and> isRet (op ex_RetC) \<and> currentStackDepth ex_state \<noteq> 1
   \<and> emit_inst ex_func ex_RetC ex_state = Inl AssertFail"
proof -
  have "\<exists>s. run ex_func [Begin_block (blocks ex_func ! 0), Emit_inst ex_Int, Set_lastOff 9,
                      Emit_cells [OpByte (OtherOp 2)], Pop 1] (init_state ex_func ex_state) = Inr s"
    by (simp add: ex_defs eval_defs end_fpi_while.simps)
  then obtain s where r: "run ex_func [Begin_block (blocks ex_func ! 0), Emit_inst ex_Int, Set_lastOff 9,
                      Emit_cells [OpByte (OtherOp 2)], Pop 1] (init_state ex_func ex_state) = Inr s" ..
  have a: "currentStackDepth ex_state - 1 < 0" by (simp add: ex_state_def)
  have b: "isRet (op ex_RetC)" "currentStackDepth ex_state \<noteq> 1"
    by (simp_all add: ex_defs)
  from stack_depth_tracking [of ex_func _ ex_state s ex_state 1 ex_RetC] r a b
  show ?thesis by blast
qed

section \<open>Properties of the expected depths of a block\<close>

text \<open>
  Claim C3. Once \<^verbatim>\<open>set_expected_depth\<close> has been called for a block at some depth,
  then after any further calls of the emission the block still expects that depth, every
  later call of \<^verbatim>\<open>set_expected_depth\<close> for the block that succeeds happens at that
  depth, and the block, when its emission begins, is entered with that depth. A block
  whose emission begins is entered with the expected depth when one was set and with 0
  otherwise (the same for the expected FPI depth), and every call of
  \<^verbatim>\<open>set_expected_depth\<close> for it from then on happens at its entry depth. A call at
  another depth fails the assertion.
\<close>

theorem expected_depth_agrees:
  "(set_expected_depth i s = Inr s1 \<longrightarrow> run func acts s1 = Inr s2 \<longrightarrow>
       expectedStackDepth (blockInfo s2 ! i) = Some (currentStackDepth s)
     \<and> (\<forall>s3. set_expected_depth i s2 = Inr s3 \<longrightarrow> currentStackDepth s2 = currentStackDepth s)
     \<and> (\<forall>b s3. id_b b = i \<longrightarrow> begin_block b s2 = Inr s3
                 \<longrightarrow> currentStackDepth s3 = currentStackDepth s))
   \<and> (begin_block b t = Inr t1 \<longrightarrow> run func acts t1 = Inr t2 \<longrightarrow>
       currentStackDepth t1
         = (case expectedStackDepth (blockInfo t ! id_b b) of None \<Rightarrow> 0 | Some d \<Rightarrow> d)
     \<and> expectedFPIDepth (blockInfo t1 ! id_b b)
         = Some (case expectedFPIDepth (blockInfo t ! id_b b) of None \<Rightarrow> 0 | Some d \<Rightarrow> d)
     \<and> (\<forall>t3. set_expected_depth (id_b b) t2 = Inr t3
               \<longrightarrow> currentStackDepth t2 = currentStackDepth t1))
   \<and> (j < length (blockInfo u) \<longrightarrow> expectedStackDepth (blockInfo u ! j) = Some d
         \<longrightarrow> currentStackDepth u \<noteq> d \<longrightarrow> set_expected_depth j u = Inl AssertFail)"
proof (intro conjI impI allI)
  assume a: "set_expected_depth i s = Inr s1" and r: "run func acts s1 = Inr s2"
  note k = run_expected_kept [OF r]
  note rec = set_expected_depth_records [OF a]
  show e2: "expectedStackDepth (blockInfo s2 ! i) = Some (currentStackDepth s)"
    using expected_keptD(1) [OF k rec(1) rec(2)] .
  {
    fix s3 assume "set_expected_depth i s2 = Inr s3"
    from set_expected_depth_checks(1) [OF this e2]
    show "currentStackDepth s2 = currentStackDepth s" .
  }
  {
    fix b s3 assume "id_b b = i" and "begin_block b s2 = Inr s3"
    with begin_block_depths(2) [of b s2 s3] e2
    show "currentStackDepth s3 = currentStackDepth s" by simp
  }
next
  assume a: "begin_block b t = Inr t1" and r: "run func acts t1 = Inr t2"
  note k = run_expected_kept [OF r]
  note bd = begin_block_depths [OF a]
  show "currentStackDepth t1
         = (case expectedStackDepth (blockInfo t ! id_b b) of None \<Rightarrow> 0 | Some d \<Rightarrow> d)"
    using bd(2) .
  show "expectedFPIDepth (blockInfo t1 ! id_b b)
         = Some (case expectedFPIDepth (blockInfo t ! id_b b) of None \<Rightarrow> 0 | Some d \<Rightarrow> d)"
    using bd(4) .
  {
    fix t3 assume "set_expected_depth (id_b b) t2 = Inr t3"
    from set_expected_depth_checks(1) [OF this expected_keptD(1) [OF k bd(1) bd(3)]]
    show "currentStackDepth t2 = currentStackDepth t1" .
  }
next
  assume "j < length (blockInfo u)" "expectedStackDepth (blockInfo u ! j) = Some d"
    "currentStackDepth u \<noteq> d"
  then show "set_expected_depth j u = Inl AssertFail"
    by (auto simp: set_expected_depth_def Let_def)
qed

theorem expected_depth_agrees_witness:
  "set_expected_depth 2 ex_site = Inr ex_site_done
   \<and> run ex_func ex_rest ex_site_done = Inr ex_fall
   \<and> (\<exists>s3. set_expected_depth 2 ex_fall = Inr s3)
   \<and> currentStackDepth ex_fall = currentStackDepth ex_site
   \<and> (\<exists>s3. begin_block (blocks ex_func ! 2) ex_fall = Inr s3
            \<and> currentStackDepth s3 = currentStackDepth ex_site)
   \<and> (\<exists>t1. begin_block (blocks ex_func ! 0) (init_state ex_func ex_state) = Inr t1
            \<and> currentStackDepth t1 = 0
            \<and> expectedFPIDepth (blockInfo t1 ! 0) = Some 0
            \<and> run ex_func [] t1 = Inr t1)
   \<and> 2 < length (blockInfo ex_fall) \<and> expectedStackDepth (blockInfo ex_fall ! 2) = Some 0
   \<and> set_expected_depth 2 (ex_fall\<lparr>currentStackDepth := 1\<rparr>) = Inl AssertFail"
proof -
  have 1: "set_expected_depth 2 ex_site = Inr ex_site_done"
    by (simp add: ex_state_defs ex_defs eval_defs end_fpi_while.simps)
  have 2: "run ex_func ex_rest ex_site_done = Inr ex_fall"
    by (simp add: ex_state_defs ex_defs eval_defs end_fpi_while.simps)
  have "\<exists>s3. set_expected_depth 2 ex_fall = Inr s3"
    by (simp add: ex_state_defs ex_defs eval_defs end_fpi_while.simps)
  then obtain s3 where 3: "set_expected_depth 2 ex_fall = Inr s3" ..
  have "\<exists>s4. begin_block (blocks ex_func ! 2) ex_fall = Inr s4"
    by (simp add: ex_state_defs ex_defs eval_defs end_fpi_while.simps)
  then obtain s4 where 4: "begin_block (blocks ex_func ! 2) ex_fall = Inr s4" ..
  have i: "id_b (blocks ex_func ! 2) = 2" by (simp add: ex_defs)
  have "\<exists>t1. begin_block (blocks ex_func ! 0) (init_state ex_func ex_state) = Inr t1"
    by (simp add: ex_defs eval_defs end_fpi_while.simps)
  then obtain t1 where 5: "begin_block (blocks ex_func ! 0) (init_state ex_func ex_state) = Inr t1" ..
  have 6: "run ex_func [] t1 = Inr t1" by (simp add: run_def)
  have 7: "expectedStackDepth (blockInfo (init_state ex_func ex_state) ! id_b (blocks ex_func ! 0)) = None"
    "expectedFPIDepth (blockInfo (init_state ex_func ex_state) ! id_b (blocks ex_func ! 0)) = None"
    "id_b (blocks ex_func ! 0) = 0"
    by (simp_all add: ex_defs eval_defs)
  note t = expected_depth_agrees [of 2 ex_site ex_site_done ex_func ex_rest ex_fall]
  from expected_depth_agrees [of 2 ex_site ex_site_done ex_func ex_rest ex_fall "blocks ex_func ! 2" ex_site ex_site ex_site]
    1 2 3 4 i
  have a: "currentStackDepth ex_fall = currentStackDepth ex_site"
    and b: "currentStackDepth s4 = currentStackDepth ex_site"
    by blast+
  from expected_depth_agrees [of 2 ex_site ex_site_done ex_func "[]" ex_fall "blocks ex_func ! 0"
      "init_state ex_func ex_state" t1 t1] 5 6 7
  have c: "currentStackDepth t1 = 0" "expectedFPIDepth (blockInfo t1 ! 0) = Some 0"
    by simp_all
  have 8: "2 < length (blockInfo (ex_fall\<lparr>currentStackDepth := 1\<rparr>))"
    "expectedStackDepth (blockInfo (ex_fall\<lparr>currentStackDepth := 1\<rparr>) ! 2) = Some 0"
    "currentStackDepth (ex_fall\<lparr>currentStackDepth := 1\<rparr>) \<noteq> 0"
    by (simp_all add: ex_state_defs ex_defs eval_defs end_fpi_while.simps)
  from expected_depth_agrees [of 2 ex_site ex_site_done ex_func ex_rest ex_fall
      "blocks ex_func ! 2" ex_site ex_site ex_site 2 "ex_fall\<lparr>currentStackDepth := 1\<rparr>" 0] 8
  have d: "set_expected_depth 2 (ex_fall\<lparr>currentStackDepth := 1\<rparr>) = Inl AssertFail"
    by blast
  from 8 have 9: "2 < length (blockInfo ex_fall)" "expectedStackDepth (blockInfo ex_fall ! 2) = Some 0"
    by simp_all
  show ?thesis using 1 2 3 4 5 6 a b c d 9 by blast
qed

section \<open>Properties of the exception table\<close>

text \<open>
  Claim C10. \<^verbatim>\<open>emit_eh_region\<close> leaves the table and the index map as they are for a
  region whose start equals its past; for any other region it appends one entry, with
  the region's bounds, and records the entry's index for the region. It returns only
  when the bounds are valid and the past is not before the start, so the appended entry
  has base below past. Hence every entry of the table that \<^verbatim>\<open>emit_ehent_tree\<close> builds
  has valid offsets with base below past.
\<close>

theorem eh_entries_nonempty:
  "(emit_eh_region regs binfo r (tab, pim) = Inr (tab', pim') \<longrightarrow>
      (start_r (regs ! r) = past_r (regs ! r) \<longrightarrow> tab' = tab \<and> pim' = pim)
    \<and> (start_r (regs ! r) \<noteq> past_r (regs ! r) \<longrightarrow>
         (\<exists>e. tab' = tab @ [e] \<and> m_base e = start_r (regs ! r) \<and> m_past e = past_r (regs ! r)
              \<and> m_base e < m_past e \<and> m_base e \<noteq> kInvalidOffset \<and> m_past e \<noteq> kInvalidOffset)
         \<and> pim' = pim(r \<mapsto> length tab)))
   \<and> (emit_ehent_tree binfo blockOrder = Inr ehtab \<longrightarrow>
        (\<forall>e \<in> set ehtab. m_base e < m_past e \<and> m_base e \<noteq> kInvalidOffset
                           \<and> m_past e \<noteq> kInvalidOffset))"
proof (intro conjI impI)
  assume a: "emit_eh_region regs binfo r (tab, pim) = Inr (tab', pim')"
  {
    assume "start_r (regs ! r) = past_r (regs ! r)"
    with emit_eh_region_cases [OF a] show "tab' = tab" "pim' = pim" by simp_all
  }
  {
    assume "start_r (regs ! r) \<noteq> past_r (regs ! r)"
    with emit_eh_region_cases [OF a]
    show "\<exists>e. tab' = tab @ [e] \<and> m_base e = start_r (regs ! r) \<and> m_past e = past_r (regs ! r)
              \<and> m_base e < m_past e \<and> m_base e \<noteq> kInvalidOffset \<and> m_past e \<noteq> kInvalidOffset"
      and "pim' = pim(r \<mapsto> length tab)"
      by (auto simp: eh_ok_def)
  }
next
  assume "emit_ehent_tree binfo blockOrder = Inr ehtab"
  then obtain w :: EHWalk and sorted pim' where
    "emit_eh_regions (regions w) binfo sorted ([], Map.empty) = Inr (ehtab, pim')"
    by (auto simp: emit_ehent_tree_def and_then_Inr_iff)
  from emit_eh_regions_ok [OF this]
  show "\<forall>e \<in> set ehtab. m_base e < m_past e \<and> m_base e \<noteq> kInvalidOffset
                           \<and> m_past e \<noteq> kInvalidOffset"
    by (simp add: eh_ok_def)
qed

theorem eh_entries_nonempty_witness:
  "start_r (ex_eh_regions ! 1) = past_r (ex_eh_regions ! 1)
   \<and> emit_eh_region ex_eh_regions ex_eh_info 1 ([], Map.empty) = Inr ([], Map.empty)
   \<and> start_r (ex_eh_regions ! 0) \<noteq> past_r (ex_eh_regions ! 0)
   \<and> (\<exists>e p. emit_eh_region ex_eh_regions ex_eh_info 0 ([], Map.empty) = Inr ([e], p)
            \<and> m_base e = 0 \<and> m_past e = 10 \<and> m_base e < m_past e)
   \<and> (\<exists>e. emit_ehent_tree ex_eh_info ex_eh_order = Inr [e] \<and> e \<in> set [e]
          \<and> m_base e < m_past e \<and> m_base e \<noteq> kInvalidOffset \<and> m_past e \<noteq> kInvalidOffset)"
proof -
  have 1: "start_r (ex_eh_regions ! 1) = past_r (ex_eh_regions ! 1)"
    "start_r (ex_eh_regions ! 0) \<noteq> past_r (ex_eh_regions ! 0)"
    by (simp_all add: ex_eh_regions_def)
  have 2: "emit_eh_region ex_eh_regions ex_eh_info 1 ([], Map.empty) = Inr ([], Map.empty)"
    by (simp add: eh_eval_defs)
  have "\<exists>t p. emit_eh_region ex_eh_regions ex_eh_info 0 ([], Map.empty) = Inr (t, p)"
    by (simp add: eh_eval_defs)
  then obtain t p where 3: "emit_eh_region ex_eh_regions ex_eh_info 0 ([], Map.empty) = Inr (t, p)"
    by blast
  have "\<exists>tab. emit_ehent_tree ex_eh_info ex_eh_order = Inr tab \<and> length tab = 1"
    unfolding emit_ehent_tree_def ex_walk
    by (simp add: eh_eval_defs upt_rec [of 0] upt_rec [of 1])
  then obtain tab where 4: "emit_ehent_tree ex_eh_info ex_eh_order = Inr tab" and 5: "length tab = 1"
    by blast
  from 5 obtain e where 6: "tab = [e]" by (cases tab) auto
  note t = eh_entries_nonempty [of ex_eh_regions ex_eh_info 0 "[]" Map.empty t p ex_eh_order tab]
  from t 1 3 obtain e0 where "t = [] @ [e0]" "m_base e0 = start_r (ex_eh_regions ! 0)"
    "m_past e0 = past_r (ex_eh_regions ! 0)" "m_base e0 < m_past e0"
    by blast
  then have a: "\<exists>e p. emit_eh_region ex_eh_regions ex_eh_info 0 ([], Map.empty) = Inr ([e], p)
            \<and> m_base e = 0 \<and> m_past e = 10 \<and> m_base e < m_past e"
    using 3 by (auto simp: ex_eh_regions_def)
  from t 4 6 have "m_base e < m_past e \<and> m_base e \<noteq> kInvalidOffset \<and> m_past e \<noteq> kInvalidOffset"
    by simp
  with 4 6 have b: "\<exists>e. emit_ehent_tree ex_eh_info ex_eh_order = Inr [e] \<and> e \<in> set [e]
          \<and> m_base e < m_past e \<and> m_base e \<noteq> kInvalidOffset \<and> m_past e \<noteq> kInvalidOffset"
    by auto
  show ?thesis using 1 2 a b by blast
qed

section \<open>Properties of the class-definition offsets\<close>

text \<open>
  Claim C8. For a \<^verbatim>\<open>DefCls\<close> or \<^verbatim>\<open>DefClsNop\<close> instruction with immediate \<open>N\<close>: emitting
  it when \<^verbatim>\<open>defClsMap[N]\<close> already holds a valid offset fails the assertion; emitting it
  at a (valid) offset succeeds only when nothing was recorded for \<open>N\<close>, and records the
  start offset of the instruction in \<^verbatim>\<open>defClsMap[N]\<close>; after the rest of the function's
  emission and the rest of the unit's (the remaining methods, classes and functions and
  the final loop over the class ids), the pre-class entry \<open>N\<close> holds that offset. In the
  finished unit every class id with a recorded offset has it in its pre-class entry.
\<close>

theorem defcls_offset_recorded:
  "((op inst = DefCls \<or> op inst = DefClsNop) \<longrightarrow> arg 1 inst = Inr N \<longrightarrow>
      (N < length (defClsMap t) \<longrightarrow> defClsMap t ! N \<noteq> kInvalidOffset
         \<longrightarrow> emit_inst func inst t = Inl AssertFail)
    \<and> (emit_inst func inst s = Inr s1 \<longrightarrow> bcPos s \<noteq> kInvalidOffset \<longrightarrow>
         defClsMap s ! N = kInvalidOffset
       \<and> defClsMap s1 ! N = bcPos s
       \<and> (run func acts s1 = Inr s2 \<longrightarrow> est u2 = s2 \<longrightarrow> N < n \<longrightarrow>
            finish_unit rM rD nd ms cs fs n u2 = Inr u \<longrightarrow> pces u ! N = bcPos s)))
   \<and> (emit_unit rM rD unit = Inr v \<longrightarrow>
        (\<forall>N < length (classes unit). defClsMap (est v) ! N \<noteq> kInvalidOffset
            \<longrightarrow> pces v ! N = defClsMap (est v) ! N))"
proof (intro conjI impI)
  assume o: "op inst = DefCls \<or> op inst = DefClsNop" and a: "arg 1 inst = Inr N"
  {
    assume "N < length (defClsMap t)" "defClsMap t ! N \<noteq> kInvalidOffset"
    with o a show "emit_inst func inst t = Inl AssertFail" by (rule emit_inst_defcls_twice)
  }
  assume e: "emit_inst func inst s = Inr s1" and v: "bcPos s \<noteq> kInvalidOffset"
  note d = emit_inst_defcls [OF e o a]
  show "defClsMap s ! N = kInvalidOffset" using d(2) .
  show r1: "defClsMap s1 ! N = bcPos s" using d(3) [OF v] .
  assume r: "run func acts s1 = Inr s2" and u2: "est u2 = s2" and n: "N < n"
    and f: "finish_unit rM rD nd ms cs fs n u2 = Inr u"
  have l1: "N < length (defClsMap s1)"
    using keepsD [OF keeps_emit_inst [OF prims_keep_inst [OF prims_keep_defcls_kept]] e] d(1)
    by (simp add: defcls_kept_def)
  have k12: "defcls_kept s1 s2"
    using keepsD [OF keeps_run [OF prims_keep_defcls_kept] r] .
  from defcls_keptD [OF k12 l1] r1 v have 2: "defClsMap s2 ! N = bcPos s" "N < length (defClsMap s2)"
    by simp_all
  from finish_unit_offsets(1) [OF f] u2 have "defcls_kept s2 (est u)" by simp
  from defcls_keptD [OF this 2(2)] 2(1) v have 3: "defClsMap (est u) ! N = bcPos s" by simp
  with finish_unit_offsets(2) [OF f] n v show "pces u ! N = bcPos s" by simp
next
  assume "emit_unit rM rD unit = Inr v"
  then obtain u1 where
    "finish_unit rM rD False [] (classes unit) (funcs unit) (length (classes unit)) u1 = Inr v"
    by (auto simp: emit_unit_def and_then_Inr_iff)
  from finish_unit_offsets(2) [OF this]
  show "\<forall>N < length (classes unit). defClsMap (est v) ! N \<noteq> kInvalidOffset
            \<longrightarrow> pces v ! N = defClsMap (est v) ! N" .
qed

theorem defcls_offset_recorded_witness:
  "op (ex_DefCls 0) = DefCls \<and> arg 1 (ex_DefCls 0) = Inr 0
   \<and> 0 < length (defClsMap ex_defcls_done) \<and> defClsMap ex_defcls_done ! 0 \<noteq> kInvalidOffset
   \<and> emit_inst ex_pm (ex_DefCls 0) ex_defcls_done = Inl AssertFail
   \<and> emit_inst ex_pm (ex_DefCls 0) ex_defcls_site = Inr ex_defcls_done
   \<and> bcPos ex_defcls_site = 10
   \<and> defClsMap ex_defcls_done ! 0 = 10
   \<and> run ex_pm ex_defcls_rest ex_defcls_done = Inr (est ex_pm_end)
   \<and> (\<exists>u. finish_unit blocks blocks False [] (classes ex_unit) (funcs ex_unit) 1 ex_pm_end = Inr u
          \<and> pces u ! 0 = 10)
   \<and> (\<exists>v. emit_unit blocks blocks ex_unit = Inr v \<and> defClsMap (est v) ! 0 = 10 \<and> pces v ! 0 = 10)"
proof -
  have o: "op (ex_DefCls 0) = DefCls" "arg 1 (ex_DefCls 0) = Inr 0"
    by (simp_all add: ex_defs arg_def)
  have 1: "emit_inst ex_pm (ex_DefCls 0) ex_defcls_site = Inr ex_defcls_done"
    by (simp add: unit_eval_defs ex_defs eval_defs end_fpi_while.simps)
  have 2: "bcPos ex_defcls_site = 10" "bcPos ex_defcls_site \<noteq> kInvalidOffset"
    by (simp_all add: unit_eval_defs ex_defs eval_defs end_fpi_while.simps)
  have 3: "run ex_pm ex_defcls_rest ex_defcls_done = Inr (est ex_pm_end)"
    by (simp add: unit_eval_defs ex_defs eval_defs end_fpi_while.simps)
  have 4: "0 < length (defClsMap ex_defcls_done)" "defClsMap ex_defcls_done ! 0 \<noteq> kInvalidOffset"
    by (simp_all add: unit_eval_defs ex_defs eval_defs end_fpi_while.simps)
  have "\<exists>u. finish_unit blocks blocks False [] (classes ex_unit) (funcs ex_unit) 1 ex_pm_end = Inr u"
    by (simp add: unit_eval_defs ex_defs eval_defs end_fpi_while.simps)
  then obtain u where 5:
    "finish_unit blocks blocks False [] (classes ex_unit) (funcs ex_unit) 1 ex_pm_end = Inr u" ..
  have "\<exists>v. emit_unit blocks blocks ex_unit = Inr v \<and> defClsMap (est v) ! 0 = 10"
    by (simp add: unit_eval_defs ex_defs eval_defs eh_eval_defs end_fpi_while.simps)
  then obtain v where 6: "emit_unit blocks blocks ex_unit = Inr v" and 7: "defClsMap (est v) ! 0 = 10"
    by blast
  have 8: "length (classes ex_unit) = 1" by (simp add: ex_unit_def)
  note t = defcls_offset_recorded [where inst = "ex_DefCls 0" and N = 0 and t = ex_defcls_done
      and func = ex_pm and s = ex_defcls_site and ?s1.0 = ex_defcls_done and acts = ex_defcls_rest
      and ?s2.0 = "est ex_pm_end" and ?u2.0 = ex_pm_end and n = 1 and rM = blocks and rD = blocks
      and nd = False and ms = "[]" and cs = "classes ex_unit" and fs = "funcs ex_unit" and u = u
      and unit = ex_unit and v = v, unfolded 8]
  from t o 4 have a: "emit_inst ex_pm (ex_DefCls 0) ex_defcls_done = Inl AssertFail" by blast
  from t o 1 2 have b: "defClsMap ex_defcls_done ! 0 = bcPos ex_defcls_site" by blast
  from t o 1 2 3 5 have c: "pces u ! 0 = bcPos ex_defcls_site" by simp
  from t 6 7 have d: "pces v ! 0 = 10" by (simp add: kInvalidOffset_def)
  show ?thesis using o 1 2 3 4 5 6 7 a b c d by auto
qed

section \<open>Properties of the FPI regions\<close>




end
